theory Spec2Isabelle
  imports Complex_Main "HOL-Library.Multiset" "HOL-Library.List_Lexorder"
    "HOL-Library.Product_Lexorder"
begin

section \<open>Data model of src/App.tsx\<close>

text \<open>
  JavaScript numbers are modelled as \<^typ>\<open>real\<close>: the engine only compares them, takes
  minima and maxima, and adds a start to a duration. Optional properties
  (\<^verbatim>\<open>field?: T\<close>) and the properties the code guards with \<^verbatim>\<open>??\<close> or \<^verbatim>\<open>?.\<close>
  are \<^typ>\<open>'a option\<close>. A \<^verbatim>\<open>Record<string, T>\<close> is a finite map. Record fields carry a
  prefix naming their type, since several types share field names in the source.
\<close>

datatype TargetMode = ModeSelf | ModeAll | ModeStudent | ModeEnemy
datatype EffectKind = KBuff | KDebuff | KAttack
datatype BuffStat = SAtk | SCrit | SCritDmg
datatype SkillType = Ex | Ns

record TargetSpec =
  ts_target :: TargetMode
  ts_targetStudentIds :: "string list option"

record Buff =
  buff_id :: string
  buff_name :: string
  buff_kind :: "EffectKind option"
  buff_stat :: BuffStat
  buff_value :: real
  buff_duration :: "real option"
  buff_stackGroup :: string
  buff_target :: "TargetMode option"
  buff_targetStudentIds :: "string list option"

record ExSkill =
  ex_id :: string
  ex_name :: string
  ex_buffs :: "Buff list"

record NormalAttack =
  hitRate :: real
  multiplier :: real

record NSkill =
  ns_id :: string
  ns_name :: string
  ns_buffs :: "Buff list"
  ns_stackGroup :: string

record Stats =
  atk :: real
  crit :: real
  critDmg :: real

record Student =
  st_id :: string
  st_name :: string
  st_stats :: Stats
  st_normal :: NormalAttack
  st_ns :: "NSkill option"
  st_ex :: "ExSkill list"

record ExEvent =
  evt_id :: string
  evt_studentId :: string
  evt_skillType :: SkillType
  evt_skillId :: string
  evt_start :: real
  evt_duration :: "real option"
  evt_target :: TargetMode
  evt_targetStudentIds :: "string list option"
  evt_buffTargets :: "(string \<rightharpoonup> TargetSpec) option"

record BuffInstance =
  bi_id :: string
  bi_studentId :: string
  bi_sourceStudentId :: string
  bi_name :: string
  bi_kind :: EffectKind
  bi_stat :: BuffStat
  bi_value :: real
  bi_start :: real
  bi_end :: real
  bi_stackGroup :: string
  bi_source :: SkillType
  bi_sourceId :: string
  bi_sourceEventId :: "string option"
  bi_sourceBuffId :: string

text \<open>The skill an event refers to is an \<^verbatim>\<open>ExSkill\<close> or the student's \<^verbatim>\<open>NSkill\<close>.\<close>

datatype Skill = ExS ExSkill | NsS NSkill

fun skill_id :: "Skill \<Rightarrow> string" where
  "skill_id (ExS s) = ex_id s"
| "skill_id (NsS s) = ns_id s"

fun skill_buffs :: "Skill \<Rightarrow> Buff list" where
  "skill_buffs (ExS s) = ex_buffs s"
| "skill_buffs (NsS s) = ns_buffs s"

definition ENEMY_ID :: string where
  "ENEMY_ID = ''enemy''"


text \<open>Template-literal rendering of the two enumerations used in keys.\<close>

fun statName :: "BuffStat \<Rightarrow> string" where
  "statName SAtk = ''atk''"
| "statName SCrit = ''crit''"
| "statName SCritDmg = ''critDmg''"

fun kindName :: "EffectKind \<Rightarrow> string" where
  "kindName KBuff = ''buff''"
| "kindName KDebuff = ''debuff''"
| "kindName KAttack = ''attack''"

section \<open>Library behaviour the engine relies on\<close>

text \<open>
  \<^verbatim>\<open>a.localeCompare(b)\<close>: a three-way comparison of strings, modelled as the
  lexicographic comparison of the character codes.
\<close>

fun localeCompare :: "string \<Rightarrow> string \<Rightarrow> int" where
  "localeCompare [] [] = 0"
| "localeCompare [] (y # ys) = -1"
| "localeCompare (x # xs) [] = 1"
| "localeCompare (x # xs) (y # ys) =
     (if (of_char x :: nat) < of_char y then -1
      else if (of_char y :: nat) < of_char x then 1
      else localeCompare xs ys)"

text \<open>
  \<^verbatim>\<open>Array.prototype.sort(compare)\<close> is a stable sort: modelled as insertion sort, an
  element going in front of the elements it does not compare greater than.
\<close>

fun insertBy :: "('a \<Rightarrow> 'a \<Rightarrow> real) \<Rightarrow> 'a \<Rightarrow> 'a list \<Rightarrow> 'a list" where
  "insertBy c x [] = [x]"
| "insertBy c x (y # ys) = (if c x y \<le> 0 then x # y # ys else y # insertBy c x ys)"

fun sortBy :: "('a \<Rightarrow> 'a \<Rightarrow> real) \<Rightarrow> 'a list \<Rightarrow> 'a list" where
  "sortBy c [] = []"
| "sortBy c (x # xs) = insertBy c x (sortBy c xs)"

text \<open>
  A \<^verbatim>\<open>Map\<close> iterates in insertion order and \<^verbatim>\<open>set\<close> on a present key keeps the key's
  position: an association list, \<^verbatim>\<open>get\<close> being \<^const>\<open>map_of\<close>.
\<close>

fun mapSet :: "'k \<Rightarrow> 'v \<Rightarrow> ('k \<times> 'v) list \<Rightarrow> ('k \<times> 'v) list" where
  "mapSet k v [] = [(k, v)]"
| "mapSet k v ((k', v') # m) = (if k' = k then (k, v) # m else (k', v') # mapSet k v m)"

text \<open>\<^verbatim>\<open>findIndex\<close>, with \<^verbatim>\<open>-1\<close> as \<^const>\<open>None\<close>.\<close>

fun findIndex :: "('a \<Rightarrow> bool) \<Rightarrow> 'a list \<Rightarrow> nat option" where
  "findIndex P [] = None"
| "findIndex P (x # xs) =
     (if P x then Some 0 else map_option Suc (findIndex P xs))"

text \<open>\<^verbatim>\<open>ids?.length ? ids : fallback\<close>\<close>

fun idsOr :: "string list option \<Rightarrow> string list \<Rightarrow> string list" where
  "idsOr (Some (x # xs)) fallback = x # xs"
| "idsOr (Some []) fallback = fallback"
| "idsOr None fallback = fallback"

section \<open>Instance Expander and Target Resolver: buildBuffInstances\<close>

text \<open>\<^verbatim>\<open>const override = event.buffTargets?.[buff.id]\<close>\<close>

definition override :: "ExEvent \<Rightarrow> Buff \<Rightarrow> TargetSpec option" where
  "override event buff =
     (case evt_buffTargets event of None \<Rightarrow> None | Some m \<Rightarrow> m (buff_id buff))"

text \<open>\<^verbatim>\<open>const targetMode = override?.target ?? buff.target ?? event.target\<close>\<close>

definition targetMode :: "ExEvent \<Rightarrow> Buff \<Rightarrow> TargetMode" where
  "targetMode event buff =
     (case override event buff of
        Some ov \<Rightarrow> ts_target ov
      | None \<Rightarrow> (case buff_target buff of Some m \<Rightarrow> m | None \<Rightarrow> evt_target event))"

definition rawTargets :: "string list \<Rightarrow> ExEvent \<Rightarrow> Buff \<Rightarrow> string list" where
  "rawTargets allStudentIds event buff =
     (if targetMode event buff = ModeEnemy then [ENEMY_ID]
      else if targetMode event buff = ModeStudent then
        idsOr (case override event buff of None \<Rightarrow> None | Some ov \<Rightarrow> ts_targetStudentIds ov)
          (case buff_target buff of
             Some m \<Rightarrow> idsOr (buff_targetStudentIds buff) [evt_studentId event]
           | None \<Rightarrow> idsOr (evt_targetStudentIds event) [evt_studentId event])
      else if targetMode event buff = ModeAll then allStudentIds
      else [evt_studentId event])"

definition finalTargets :: "string list \<Rightarrow> ExEvent \<Rightarrow> Buff \<Rightarrow> string list" where
  "finalTargets allStudentIds event buff =
     (let allTargetIds = allStudentIds @ [ENEMY_ID];
          target = filter (\<lambda>i. i \<in> set allTargetIds) (rawTargets allStudentIds event buff)
      in if targetMode event buff = ModeEnemy then [ENEMY_ID]
         else if target \<noteq> [] then target
         else [evt_studentId event])"

text \<open>\<^verbatim>\<open>const kind = buff.kind ?? "buff"\<close>\<close>

definition kindOf :: "Buff \<Rightarrow> EffectKind" where
  "kindOf buff = (case buff_kind buff of Some k \<Rightarrow> k | None \<Rightarrow> KBuff)"

definition effectDuration :: "real \<Rightarrow> ExEvent \<Rightarrow> Buff \<Rightarrow> real" where
  "effectDuration timeStep event buff =
     (if kindOf buff = KAttack
      then max timeStep (case buff_duration buff of Some d \<Rightarrow> d | None \<Rightarrow> timeStep)
      else (case evt_duration event of
              Some d \<Rightarrow> d
            | None \<Rightarrow> (case buff_duration buff of Some d \<Rightarrow> d | None \<Rightarrow> timeStep)))"

text \<open>
  The skill lookup that \<^verbatim>\<open>buildBuffInstances\<close> and \<^verbatim>\<open>normalizeEvents\<close> both write out:
  an EX skill of the student by id, or the student's NS skill if it has that id.
\<close>

definition lookupSkill :: "Student \<Rightarrow> SkillType \<Rightarrow> string \<Rightarrow> Skill option" where
  "lookupSkill student skillType skillId =
     (if skillType = Ex
      then map_option ExS (find (\<lambda>item. ex_id item = skillId) (st_ex student))
      else (case st_ns student of
              None \<Rightarrow> None
            | Some ns \<Rightarrow> if ns_id ns = skillId then Some (NsS ns) else None))"

definition findSkill :: "Student \<Rightarrow> ExEvent \<Rightarrow> Skill option" where
  "findSkill student event = lookupSkill student (evt_skillType event) (evt_skillId event)"

text \<open>The body of \<^verbatim>\<open>finalTargets.forEach\<close>: one instance per resolved target.\<close>

definition mkInstance ::
  "Student \<Rightarrow> Skill \<Rightarrow> ExEvent \<Rightarrow> Buff \<Rightarrow> real \<Rightarrow> string \<Rightarrow> BuffInstance" where
  "mkInstance student skill event buff endT targetStudentId =
     \<lparr> bi_id = evt_id event @ '':'' @ buff_id buff @ '':'' @ targetStudentId,
       bi_studentId = targetStudentId,
       bi_sourceStudentId = st_id student,
       bi_name = buff_name buff,
       bi_kind = kindOf buff,
       bi_stat = buff_stat buff,
       bi_value = buff_value buff,
       bi_start = evt_start event,
       bi_end = endT,
       bi_stackGroup = buff_stackGroup buff,
       bi_source = evt_skillType event,
       bi_sourceId = skill_id skill,
       bi_sourceEventId = Some (evt_id event),
       bi_sourceBuffId = buff_id buff \<rparr>"

text \<open>The body of \<^verbatim>\<open>skill.buffs.forEach\<close>.\<close>

definition buffInstancesOf ::
  "string list \<Rightarrow> real \<Rightarrow> real \<Rightarrow> Student \<Rightarrow> Skill \<Rightarrow> ExEvent \<Rightarrow> Buff \<Rightarrow> BuffInstance list" where
  "buffInstancesOf allStudentIds timelineSeconds timeStep student skill event buff =
     (let endT = min (evt_start event + effectDuration timeStep event buff) timelineSeconds
      in map (mkInstance student skill event buff endT) (finalTargets allStudentIds event buff))"

text \<open>The body of \<^verbatim>\<open>events.forEach\<close>; the two early returns give no instance.\<close>

definition eventInstances ::
  "Student list \<Rightarrow> real \<Rightarrow> real \<Rightarrow> ExEvent \<Rightarrow> BuffInstance list" where
  "eventInstances students timelineSeconds timeStep event =
     (case find (\<lambda>item. st_id item = evt_studentId event) students of
        None \<Rightarrow> []
      | Some student \<Rightarrow>
          (case findSkill student event of
             None \<Rightarrow> []
           | Some skill \<Rightarrow>
               concat (map (buffInstancesOf (map st_id students) timelineSeconds timeStep
                              student skill event)
                         (skill_buffs skill))))"

definition buildBuffInstances ::
  "Student list \<Rightarrow> ExEvent list \<Rightarrow> (string \<rightharpoonup> bool) \<Rightarrow> (string \<rightharpoonup> TargetSpec)
     \<Rightarrow> real \<Rightarrow> real \<Rightarrow> BuffInstance list" where
  "buildBuffInstances students events nsEnabled nsTargets timelineSeconds timeStep =
     concat (map (eventInstances students timelineSeconds timeStep) events)"

section \<open>Overwrite Resolution Engine: applyOverwriteRules\<close>

definition slotKey :: "BuffInstance \<Rightarrow> string" where
  "slotKey buff =
     bi_studentId buff @ '':'' @ statName (bi_stat buff) @ '':'' @ bi_stackGroup buff
       @ '':'' @ kindName (bi_kind buff)"

text \<open>The first \<^verbatim>\<open>instances.forEach\<close>: append to the key's list, or start one.\<close>

definition groupStep ::
  "(string \<times> BuffInstance list) list \<Rightarrow> BuffInstance \<Rightarrow> (string \<times> BuffInstance list) list" where
  "groupStep grouped buff =
     (case map_of grouped (slotKey buff) of
        Some list \<Rightarrow> mapSet (slotKey buff) (list @ [buff]) grouped
      | None \<Rightarrow> mapSet (slotKey buff) [buff] grouped)"

definition grouped :: "BuffInstance list \<Rightarrow> (string \<times> BuffInstance list) list" where
  "grouped instances = foldl groupStep [] instances"

text \<open>\<^verbatim>\<open>(a, b) => a.start - b.start || a.id.localeCompare(b.id)\<close>\<close>

definition compareStartId :: "BuffInstance \<Rightarrow> BuffInstance \<Rightarrow> real" where
  "compareStartId a b =
     (if bi_start a - bi_start b \<noteq> 0 then bi_start a - bi_start b
      else of_int (localeCompare (bi_id a) (bi_id b)))"

text \<open>
  The body of \<^verbatim>\<open>sorted.forEach\<close>. The array \<^verbatim>\<open>trimmed\<close> is used as a stack; it is kept
  here with its last element first.
\<close>

fun trimStep :: "BuffInstance list \<Rightarrow> BuffInstance \<Rightarrow> BuffInstance list" where
  "trimStep [] buff = [buff]"
| "trimStep (lastB # rest) buff =
     (if bi_start buff < bi_end lastB then
        (let lastB' = lastB\<lparr>bi_end := min (bi_end lastB) (bi_start buff)\<rparr>
         in if bi_end lastB' \<le> bi_start lastB' then buff # rest else buff # lastB' # rest)
      else buff # lastB # rest)"

definition trimmed :: "BuffInstance list \<Rightarrow> BuffInstance list" where
  "trimmed sortedL = rev (foldl trimStep [] sortedL)"

text \<open>The body of \<^verbatim>\<open>grouped.forEach\<close>: what one group adds to \<^verbatim>\<open>result\<close>.\<close>

definition resolveGroup :: "BuffInstance list \<Rightarrow> BuffInstance list" where
  "resolveGroup list =
     filter (\<lambda>buff. bi_end buff > bi_start buff) (trimmed (sortBy compareStartId list))"

definition applyOverwriteRules :: "BuffInstance list \<Rightarrow> BuffInstance list" where
  "applyOverwriteRules instances = concat (map (\<lambda>(key, list). resolveGroup list) (grouped instances))"

section \<open>Lane Assignment: buildBuffLanes\<close>

record LaneResult =
  laneMap :: "string \<rightharpoonup> nat"
  laneCount :: nat

text \<open>The body of \<^verbatim>\<open>sorted.forEach\<close>, on the pair \<^verbatim>\<open>(laneEnds, laneMap)\<close>.\<close>

definition laneStep ::
  "real list \<times> (string \<rightharpoonup> nat) \<Rightarrow> BuffInstance \<Rightarrow> real list \<times> (string \<rightharpoonup> nat)" where
  "laneStep s buff =
     (case findIndex (\<lambda>endT. bi_start buff \<ge> endT) (fst s) of
        None \<Rightarrow> (fst s @ [bi_end buff], (snd s)(bi_id buff \<mapsto> length (fst s)))
      | Some laneIndex \<Rightarrow> ((fst s)[laneIndex := bi_end buff], (snd s)(bi_id buff \<mapsto> laneIndex)))"

definition buildBuffLanes :: "BuffInstance list \<Rightarrow> LaneResult" where
  "buildBuffLanes buffs =
     (let sortedL = sortBy (\<lambda>a b. bi_start a - bi_start b) buffs;
          s = foldl laneStep ([], Map.empty) sortedL
      in \<lparr> laneMap = snd s, laneCount = max 1 (length (fst s)) \<rparr>)"

section \<open>Stat Aggregator: computeStatsAtTime\<close>

record StatTarget =
  tg_id :: string
  tg_stats :: Stats

record StatResult =
  active :: "BuffInstance list"
  totals :: Stats
  computed :: Stats

definition stackKey :: "BuffInstance \<Rightarrow> string" where
  "stackKey buff =
     statName (bi_stat buff) @ '':'' @ bi_stackGroup buff @ '':'' @ kindName (bi_kind buff)"

text \<open>The body of \<^verbatim>\<open>active.forEach\<close>.\<close>

definition stackStep ::
  "(string \<times> BuffInstance) list \<Rightarrow> BuffInstance \<Rightarrow> (string \<times> BuffInstance) list" where
  "stackStep stacked buff =
     (case map_of stacked (stackKey buff) of
        None \<Rightarrow> mapSet (stackKey buff) buff stacked
      | Some current \<Rightarrow>
          if bi_start buff > bi_start current then mapSet (stackKey buff) buff stacked
          else stacked)"

definition stacked :: "BuffInstance list \<Rightarrow> (string \<times> BuffInstance) list" where
  "stacked act = foldl stackStep [] act"

text \<open>The body of \<^verbatim>\<open>Array.from(stacked.values()).forEach\<close>.\<close>

definition addTotal :: "Stats \<Rightarrow> BuffInstance \<Rightarrow> Stats" where
  "addTotal tot buff =
     (if bi_kind buff = KAttack then tot
      else
        (let sign = (if bi_kind buff = KDebuff then - 1 else 1)
         in case bi_stat buff of
              SAtk \<Rightarrow> tot\<lparr>atk := atk tot + bi_value buff * sign\<rparr>
            | SCrit \<Rightarrow> tot\<lparr>crit := crit tot + bi_value buff * sign\<rparr>
            | SCritDmg \<Rightarrow> tot\<lparr>critDmg := critDmg tot + bi_value buff * sign\<rparr>))"

definition activeAt :: "string \<Rightarrow> real \<Rightarrow> BuffInstance \<Rightarrow> bool" where
  "activeAt targetId time item \<longleftrightarrow>
     bi_studentId item = targetId \<and> bi_start item \<le> time \<and> time < bi_end item"

definition computeStatsAtTime :: "StatTarget \<Rightarrow> real \<Rightarrow> BuffInstance list \<Rightarrow> StatResult" where
  "computeStatsAtTime target time instances =
     (let act = filter (activeAt (tg_id target) time) instances;
          tot = foldl addTotal \<lparr> atk = 0, crit = 0, critDmg = 0 \<rparr> (map snd (stacked act))
      in \<lparr> active = act,
           totals = tot,
           computed = \<lparr> atk = atk (tg_stats target) * (1 + atk tot),
                        crit = crit (tg_stats target) * (1 + crit tot),
                        critDmg = critDmg (tg_stats target) * (1 + critDmg tot) \<rparr> \<rparr>)"

section \<open>Share token: serializeState, parseState, normalizeEvents\<close>











section \<open>The engine as the application runs it\<close>







section \<open>Notions used in the statements and proofs\<close>


text \<open>The instances of a list that carry a given grouping key, in the list's order.\<close>

definition slotOf :: "string \<Rightarrow> BuffInstance list \<Rightarrow> BuffInstance list" where
  "slotOf k xs = filter (\<lambda>b. slotKey b = k) xs"

text \<open>\<open>b\<close> is \<open>a\<close> with its end possibly moved down, and nothing else changed.\<close>

definition shrunk :: "BuffInstance \<Rightarrow> BuffInstance \<Rightarrow> bool" where
  "shrunk a b \<longleftrightarrow> b = a\<lparr>bi_end := bi_end b\<rparr> \<and> bi_end b \<le> bi_end a"





text \<open>
  The fallback chain of mode \<^verbatim>\<open>student\<close> as claim C3 words it: the override's list, then
  the effect definition's list, then the cast event's list, then the owner.
\<close>

definition claimedStudentTargets :: "ExEvent \<Rightarrow> Buff \<Rightarrow> string list" where
  "claimedStudentTargets event buff =
     idsOr (case override event buff of None \<Rightarrow> None | Some ov \<Rightarrow> ts_targetStudentIds ov)
       (idsOr (buff_targetStudentIds buff)
          (idsOr (evt_targetStudentIds event) [evt_studentId event]))"

text \<open>The cast event, effect definition and target an instance was expanded from.\<close>

definition instanceTriple :: "BuffInstance \<Rightarrow> string option \<times> string \<times> string" where
  "instanceTriple b = (bi_sourceEventId b, bi_sourceBuffId b, bi_studentId b)"

text \<open>An optional id list that repeats no id.\<close>

definition idsDistinct :: "string list option \<Rightarrow> bool" where
  "idsDistinct ids = (case ids of None \<Rightarrow> True | Some l \<Rightarrow> distinct l)"

text \<open>The group of the Stat Aggregator: stat, stack group and kind.\<close>

definition stackGroupOf :: "BuffInstance \<Rightarrow> BuffStat \<times> string \<times> EffectKind" where
  "stackGroupOf b = (bi_stat b, bi_stackGroup b, bi_kind b)"

text \<open>What an instance adds to the total of a stat: its signed magnitude, if it is of that stat.\<close>

definition contribution :: "BuffStat \<Rightarrow> BuffInstance \<Rightarrow> real" where
  "contribution st b =
     (if bi_stat b \<noteq> st then 0
      else case bi_kind b of KBuff \<Rightarrow> bi_value b | KDebuff \<Rightarrow> - bi_value b | KAttack \<Rightarrow> 0)"

text \<open>
  The invariant of the \<^verbatim>\<open>stacked\<close> map after the instances \<open>A\<close>: keys are those of
  their values, and every instance seen has an entry of its key that starts no earlier.
\<close>

definition stackInv :: "BuffInstance set \<Rightarrow> (string \<times> BuffInstance) list \<Rightarrow> bool" where
  "stackInv A m \<longleftrightarrow>
     distinct (map fst m) \<and>
     (\<forall>(k, v) \<in> set m. stackKey v = k \<and> v \<in> A) \<and>
     (\<forall>b \<in> A. \<exists>v. map_of m (stackKey b) = Some v \<and> bi_start b \<le> bi_start v)"

text \<open>The number of instances of a list that are active at an instant.\<close>

definition activeCount :: "real \<Rightarrow> BuffInstance list \<Rightarrow> nat" where
  "activeCount t buffs = length (filter (\<lambda>b. bi_start b \<le> t \<and> t < bi_end b) buffs)"

text \<open>
  The invariant of the lane loop after the instances \<open>ps\<close>: every instance has a lane whose
  end is not before its own, every lane ends with one of its instances, instances of one
  lane do not overlap, and some instant has as many active instances as there are lanes.
\<close>

definition laneInv :: "BuffInstance list \<Rightarrow> real list \<times> (string \<rightharpoonup> nat) \<Rightarrow> bool" where
  "laneInv ps s \<longleftrightarrow>
     (\<forall>b \<in> set ps. \<exists>l < length (fst s). snd s (bi_id b) = Some l \<and> bi_end b \<le> fst s ! l) \<and>
     (\<forall>l < length (fst s). \<exists>b \<in> set ps. snd s (bi_id b) = Some l \<and> bi_end b = fst s ! l) \<and>
     (\<forall>a \<in> set ps. \<forall>b \<in> set ps. a \<noteq> b \<longrightarrow> snd s (bi_id a) = snd s (bi_id b) \<longrightarrow>
        bi_end a \<le> bi_start b \<or> bi_end b \<le> bi_start a) \<and>
     (fst s \<noteq> [] \<longrightarrow> (\<exists>t. length (fst s) \<le> activeCount t ps))"


text \<open>The effect-definition lists of a student: one for each EX skill, and that of the NS skill.\<close>

definition studentBuffs :: "Student \<Rightarrow> Buff list list" where
  "studentBuffs student =
     map ex_buffs (st_ex student) @ (case st_ns student of None \<Rightarrow> [] | Some ns \<Rightarrow> [ns_buffs ns])"

section \<open>Sample data\<close>

text \<open>An attack-power buff instance with the given id, target, stack group, interval and value.\<close>

definition sampleInstance ::
  "string \<Rightarrow> string \<Rightarrow> string \<Rightarrow> real \<Rightarrow> real \<Rightarrow> real \<Rightarrow> BuffInstance" where
  "sampleInstance i t g s e v =
     \<lparr> bi_id = i, bi_studentId = t, bi_sourceStudentId = t, bi_name = ''sample'',
       bi_kind = KBuff, bi_stat = SAtk, bi_value = v, bi_start = s, bi_end = e,
       bi_stackGroup = g, bi_source = Ex, bi_sourceId = ''ex'', bi_sourceEventId = None,
       bi_sourceBuffId = ''b'' \<rparr>"

text \<open>An effect definition on attack power, a student with one EX skill, a cast event of it.\<close>

definition sampleBuff :: "string \<Rightarrow> EffectKind \<Rightarrow> real \<Rightarrow> string \<Rightarrow> TargetMode option \<Rightarrow> Buff" where
  "sampleBuff i k d g t =
     \<lparr> buff_id = i, buff_name = ''effect'', buff_kind = Some k, buff_stat = SAtk,
       buff_value = 0.3, buff_duration = Some d, buff_stackGroup = g, buff_target = t,
       buff_targetStudentIds = None \<rparr>"

definition sampleSkill :: "Buff list \<Rightarrow> ExSkill" where
  "sampleSkill bs = \<lparr> ex_id = ''ex1'', ex_name = ''EX-1'', ex_buffs = bs \<rparr>"

definition sampleStudent :: "string \<Rightarrow> Buff list \<Rightarrow> Student" where
  "sampleStudent i bs =
     \<lparr> st_id = i, st_name = ''student'',
       st_stats = \<lparr> atk = 1000, crit = 200, critDmg = 200 \<rparr>,
       st_normal = \<lparr> hitRate = 1, multiplier = 1 \<rparr>,
       st_ns = None,
       st_ex = [sampleSkill bs] \<rparr>"

definition sampleEvent ::
  "string \<Rightarrow> string \<Rightarrow> real \<Rightarrow> real \<Rightarrow> TargetMode \<Rightarrow> string list option
     \<Rightarrow> (string \<rightharpoonup> TargetSpec) option \<Rightarrow> ExEvent" where
  "sampleEvent i owner s d t ids ov =
     \<lparr> evt_id = i, evt_studentId = owner, evt_skillType = Ex, evt_skillId = ''ex1'',
       evt_start = s, evt_duration = Some d, evt_target = t, evt_targetStudentIds = ids,
       evt_buffTargets = ov \<rparr>"

text \<open>A stat target with base attack 1000.\<close>

definition sampleTarget :: StatTarget where
  "sampleTarget = \<lparr> tg_id = ''t'', tg_stats = \<lparr> atk = 1000, crit = 200, critDmg = 200 \<rparr> \<rparr>"



section \<open>Lemmas on the overwrite engine\<close>

subsection \<open>sortBy\<close>

lemma mset_insertBy: "mset (insertBy c x xs) = add_mset x (mset xs)"
  by (induction xs) auto

lemma mset_sortBy: "mset (sortBy c xs) = mset xs"
  by (induction xs) (auto simp: mset_insertBy)

lemma set_sortBy: "set (sortBy c xs) = set xs"
  by (metis mset_sortBy set_mset_mset)

subsection \<open>mapSet\<close>

lemma map_of_mapSet: "map_of (mapSet k v m) = (map_of m)(k \<mapsto> v)"
  by (induction m) (auto simp: fun_eq_iff)

lemma keys_mapSet:
  "map fst (mapSet k v m) = (if k \<in> fst ` set m then map fst m else map fst m @ [k])"
  by (induction m) (force simp: image_iff)+

lemma distinct_mapSet: "distinct (map fst m) \<Longrightarrow> distinct (map fst (mapSet k v m))"
  by (simp add: keys_mapSet)

subsection \<open>grouped\<close>

lemma groupStep_distinct: "distinct (map fst g) \<Longrightarrow> distinct (map fst (groupStep g b))"
  by (auto simp: groupStep_def distinct_mapSet split: option.splits)

lemma map_of_groupStep:
  "map_of (groupStep g b) =
     (map_of g)(slotKey b \<mapsto> (case map_of g (slotKey b) of Some l \<Rightarrow> l @ [b] | None \<Rightarrow> [b]))"
  by (auto simp: groupStep_def map_of_mapSet split: option.splits)

lemma foldl_groupStep_distinct:
  "distinct (map fst g) \<Longrightarrow> distinct (map fst (foldl groupStep g xs))"
  by (induction xs arbitrary: g) (auto simp: groupStep_distinct)

lemma map_of_foldl_groupStep:
  "map_of (foldl groupStep g xs) k =
     (case map_of g k of
        Some l \<Rightarrow> Some (l @ slotOf k xs)
      | None \<Rightarrow> if slotOf k xs = [] then None else Some (slotOf k xs))"
proof (induction xs arbitrary: g)
  case Nil
  then show ?case by (simp add: slotOf_def split: option.splits)
next
  case (Cons x xs)
  show ?case
    by (simp add: Cons.IH map_of_groupStep slotOf_def split: option.splits)
qed

lemma grouped_distinct: "distinct (map fst (grouped xs))"
  by (simp add: grouped_def foldl_groupStep_distinct)

lemma map_of_grouped:
  "map_of (grouped xs) k = (if slotOf k xs = [] then None else Some (slotOf k xs))"
  by (simp add: grouped_def map_of_foldl_groupStep)

lemma grouped_mem:
  "(k, l) \<in> set (grouped xs) \<longleftrightarrow> l \<noteq> [] \<and> l = slotOf k xs"
proof -
  have "(k, l) \<in> set (grouped xs) \<longleftrightarrow> map_of (grouped xs) k = Some l"
    using grouped_distinct by (metis map_of_eq_Some_iff)
  then show ?thesis by (auto simp: map_of_grouped)
qed

lemma set_applyOverwriteRules:
  "set (applyOverwriteRules xs) = (\<Union>k \<in> slotKey ` set xs. set (resolveGroup (slotOf k xs)))"
proof -
  have "set (applyOverwriteRules xs) = (\<Union>(k, l) \<in> set (grouped xs). set (resolveGroup l))"
    by (auto simp: applyOverwriteRules_def)
  also have "\<dots> = (\<Union>k \<in> {k. slotOf k xs \<noteq> []}. set (resolveGroup (slotOf k xs)))"
    by (force simp: grouped_mem)
  also have "{k. slotOf k xs \<noteq> []} = slotKey ` set xs"
    by (auto simp: slotOf_def filter_empty_conv)
  finally show ?thesis .
qed

subsection \<open>frame\<close>

lemma shrunk_refl: "shrunk a a"
  by (simp add: shrunk_def)

lemma shrunk_trans: "shrunk a b \<Longrightarrow> shrunk b c \<Longrightarrow> shrunk a c"
  unfolding shrunk_def by (metis (no_types, lifting) BuffInstance.surjective BuffInstance.update_convs(9) order_trans)

lemma shrunk_cut: "t \<le> bi_end a \<Longrightarrow> shrunk a (a\<lparr>bi_end := t\<rparr>)"
  by (simp add: shrunk_def)

lemma trimStep_frame:
  assumes "\<forall>b \<in> set st. \<exists>a \<in> A. shrunk a b"
  shows "\<forall>b \<in> set (trimStep st x). \<exists>a \<in> insert x A. shrunk a b"
proof (cases st)
  case Nil
  then show ?thesis by (auto intro: shrunk_refl)
next
  case (Cons l rest)
  obtain a where a: "a \<in> A" "shrunk a l" using assms Cons by auto
  have l': "t \<le> bi_end l \<Longrightarrow> shrunk a (l\<lparr>bi_end := t\<rparr>)" for t
    using a(2) shrunk_cut shrunk_trans by blast
  have rest: "\<forall>b \<in> set rest. \<exists>a \<in> insert x A. shrunk a b" using assms Cons by auto
  have l0: "\<exists>a \<in> insert x A. shrunk a l" using a by auto
  have l1: "t \<le> bi_end l \<Longrightarrow> \<exists>a \<in> insert x A. shrunk a (l\<lparr>bi_end := t\<rparr>)" for t
    using a l' by auto
  have x: "\<exists>a \<in> insert x A. shrunk a x" by (auto intro: shrunk_refl)
  show ?thesis unfolding Cons using rest l0 l1 x
    by (simp add: Let_def del: insert_iff)
qed

lemma foldl_trimStep_frame:
  "\<forall>b \<in> set st. \<exists>a \<in> A. shrunk a b \<Longrightarrow>
   \<forall>b \<in> set (foldl trimStep st xs). \<exists>a \<in> A \<union> set xs. shrunk a b"
proof (induction xs arbitrary: st A)
  case Nil
  then show ?case by simp
next
  case (Cons x xs)
  from trimStep_frame[OF Cons.prems, of x]
  have "\<forall>b\<in>set (foldl trimStep (trimStep st x) xs). \<exists>a\<in>insert x A \<union> set xs. shrunk a b"
    by (rule Cons.IH)
  then show ?case by simp
qed

lemma resolveGroup_frame:
  "b \<in> set (resolveGroup l) \<Longrightarrow> \<exists>a \<in> set l. shrunk a b"
  using foldl_trimStep_frame[of "[]" "{}" "sortBy compareStartId l"]
  by (auto simp: resolveGroup_def trimmed_def set_sortBy)

lemma applyOverwriteRules_frame_aux:
  "b \<in> set (applyOverwriteRules xs) \<Longrightarrow> \<exists>a \<in> set xs. shrunk a b"
  by (auto simp: set_applyOverwriteRules slotOf_def dest!: resolveGroup_frame)




subsection \<open>comparators as keys\<close>




lemma insertBy_insort_key:
  "(\<And>a b. c a b \<le> 0 \<longleftrightarrow> f a \<le> f b) \<Longrightarrow> insertBy c x xs = insort_key f x xs"
  by (induction xs) auto

lemma sortBy_sort_key:
  "(\<And>a b. c a b \<le> 0 \<longleftrightarrow> f a \<le> f b) \<Longrightarrow> sortBy c xs = sort_key f xs"
  by (induction xs) (auto simp: insertBy_insort_key)


lemma sortBy_start: "sortBy (\<lambda>a b. bi_start a - bi_start b) xs = sort_key bi_start xs"
  by (rule sortBy_sort_key) simp



subsection \<open>the sweep\<close>








subsection \<open>idempotence of one group\<close>








subsection \<open>grouping a list that is already laid out in blocks\<close>


















section \<open>Lemmas on the expander\<close>

subsection \<open>membership\<close>

lemma buildBuffInstances_mem:
  "b \<in> set (buildBuffInstances students events nsEnabled nsTargets timelineSeconds timeStep) \<longleftrightarrow>
   (\<exists>event \<in> set events. \<exists>student skill.
      find (\<lambda>item. st_id item = evt_studentId event) students = Some student \<and>
      findSkill student event = Some skill \<and>
      (\<exists>buff \<in> set (skill_buffs skill).
         \<exists>t \<in> set (finalTargets (map st_id students) event buff).
           b = mkInstance student skill event buff
                 (min (evt_start event + effectDuration timeStep event buff) timelineSeconds) t))"
  unfolding buildBuffInstances_def eventInstances_def buffInstancesOf_def Let_def
  by (auto split: option.splits) (force+)




subsection \<open>durations\<close>



subsection \<open>targets\<close>

lemma finalTargets_enemy:
  "targetMode event buff = ModeEnemy \<Longrightarrow> finalTargets ids event buff = [ENEMY_ID]"
  by (simp add: finalTargets_def)

lemma finalTargets_self:
  "targetMode event buff = ModeSelf \<Longrightarrow> evt_studentId event \<in> set ids \<Longrightarrow>
   finalTargets ids event buff = [evt_studentId event]"
  by (simp add: finalTargets_def rawTargets_def)

lemma filter_all: "filter (\<lambda>i. i \<in> set ids \<or> i = e) ids = ids"
  by (induction ids) auto

lemma finalTargets_all:
  "targetMode event buff = ModeAll \<Longrightarrow> evt_studentId event \<in> set ids \<Longrightarrow>
   finalTargets ids event buff = ids"
  by (auto simp: finalTargets_def rawTargets_def filter_all Let_def)

lemma finalTargets_student:
  "targetMode event buff = ModeStudent \<Longrightarrow>
   finalTargets ids event buff =
     (let chosen =
            idsOr (case override event buff of None \<Rightarrow> None | Some ov \<Rightarrow> ts_targetStudentIds ov)
              (case buff_target buff of
                 Some m \<Rightarrow> idsOr (buff_targetStudentIds buff) [evt_studentId event]
               | None \<Rightarrow> idsOr (evt_targetStudentIds event) [evt_studentId event]);
          valid = filter (\<lambda>i. i \<in> set (ids @ [ENEMY_ID])) chosen
      in if valid \<noteq> [] then valid else [evt_studentId event])"
  unfolding finalTargets_def rawTargets_def Let_def by simp

lemma finalTargets_valid:
  "evt_studentId event \<in> set ids \<Longrightarrow>
   finalTargets ids event buff \<noteq> [] \<and> set (finalTargets ids event buff) \<subseteq> set ids \<union> {ENEMY_ID}"
  by (auto simp: finalTargets_def Let_def)

lemma idsOr_distinct: "idsDistinct l \<Longrightarrow> distinct d \<Longrightarrow> distinct (idsOr l d)"
  by (cases "(l, d)" rule: idsOr.cases) (auto simp: idsDistinct_def)

lemma rawTargets_distinct:
  assumes "distinct ids"
    "idsDistinct (case override event buff of None \<Rightarrow> None | Some ov \<Rightarrow> ts_targetStudentIds ov)"
    "idsDistinct (buff_targetStudentIds buff)" "idsDistinct (evt_targetStudentIds event)"
  shows "distinct (rawTargets ids event buff)"
  using assms by (auto simp: rawTargets_def intro!: idsOr_distinct split: option.splits)

lemma finalTargets_distinct:
  assumes "distinct ids"
    "idsDistinct (case override event buff of None \<Rightarrow> None | Some ov \<Rightarrow> ts_targetStudentIds ov)"
    "idsDistinct (buff_targetStudentIds buff)" "idsDistinct (evt_targetStudentIds event)"
  shows "distinct (finalTargets ids event buff)"
  using rawTargets_distinct[OF assms] by (simp add: finalTargets_def Let_def)

lemma mkInstance_id_inj:
  "inj (\<lambda>t. bi_id (mkInstance student skill event buff e t))"
  by (simp add: inj_on_def mkInstance_def)

lemma buffInstancesOf_distinct:
  "distinct (finalTargets ids event buff) \<Longrightarrow>
   distinct (map bi_id (buffInstancesOf ids timelineSeconds timeStep student skill event buff)) \<and>
   distinct (map instanceTriple (buffInstancesOf ids timelineSeconds timeStep student skill event buff))"
  by (simp add: buffInstancesOf_def Let_def distinct_map inj_on_def mkInstance_def instanceTriple_def)

section \<open>Lemmas on the stat aggregator\<close>

lemma kind_suffix_inj:
  "g1 @ '':'' @ kindName k1 = g2 @ '':'' @ kindName k2 \<Longrightarrow> g1 = g2 \<and> k1 = k2"
proof -
  assume "g1 @ '':'' @ kindName k1 = g2 @ '':'' @ kindName k2"
  then have "rev (g1 @ '':'' @ kindName k1) = rev (g2 @ '':'' @ kindName k2)" by simp
  then show ?thesis by (cases k1; cases k2) simp_all
qed

lemma stackKey_inj: "stackKey a = stackKey b \<longleftrightarrow> stackGroupOf a = stackGroupOf b"
proof
  assume e: "stackKey a = stackKey b"
  have s: "bi_stat a = bi_stat b"
    using e unfolding stackKey_def by (cases "bi_stat a"; cases "bi_stat b") simp_all
  then have "bi_stackGroup a @ '':'' @ kindName (bi_kind a)
           = bi_stackGroup b @ '':'' @ kindName (bi_kind b)"
    using e unfolding stackKey_def by simp
  then show "stackGroupOf a = stackGroupOf b"
    using s kind_suffix_inj by (simp add: stackGroupOf_def)
next
  assume "stackGroupOf a = stackGroupOf b"
  then show "stackKey a = stackKey b" by (simp add: stackGroupOf_def stackKey_def)
qed

lemma set_mapSet: "set (mapSet k v m) \<subseteq> insert (k, v) (set m)"
  by (induction m) (auto split: if_splits)

lemma stackStep_inv:
  assumes "stackInv A m"
  shows "stackInv (insert x A) (stackStep m x)"
proof -
  have d: "distinct (map fst m)" and kv: "\<forall>(k, v) \<in> set m. stackKey v = k \<and> v \<in> A"
    and latest: "\<forall>b \<in> A. \<exists>v. map_of m (stackKey b) = Some v \<and> bi_start b \<le> bi_start v"
    using assms by (auto simp: stackInv_def)
  show ?thesis
  proof (cases "map_of m (stackKey x)")
    case None
    then have step: "stackStep m x = mapSet (stackKey x) x m" by (simp add: stackStep_def)
    have "\<forall>b \<in> insert x A. \<exists>v. map_of (mapSet (stackKey x) x m) (stackKey b) = Some v
            \<and> bi_start b \<le> bi_start v"
      using latest None by (auto simp: map_of_mapSet)
    moreover have "\<forall>(k, v) \<in> set (mapSet (stackKey x) x m). stackKey v = k \<and> v \<in> insert x A"
      using kv set_mapSet[of "stackKey x" x m] by auto
    ultimately show ?thesis using d by (simp add: stackInv_def step distinct_mapSet)
  next
    case (Some c)
    show ?thesis
    proof (cases "bi_start x > bi_start c")
      case True
      then have step: "stackStep m x = mapSet (stackKey x) x m" using Some by (simp add: stackStep_def)
      have "\<forall>b \<in> insert x A. \<exists>v. map_of (mapSet (stackKey x) x m) (stackKey b) = Some v
            \<and> bi_start b \<le> bi_start v"
        using latest Some True by (fastforce simp: map_of_mapSet)
      moreover have "\<forall>(k, v) \<in> set (mapSet (stackKey x) x m). stackKey v = k \<and> v \<in> insert x A"
        using kv set_mapSet[of "stackKey x" x m] by auto
      ultimately show ?thesis using d by (simp add: stackInv_def step distinct_mapSet)
    next
      case False
      then have step: "stackStep m x = m" using Some by (simp add: stackStep_def)
      have "\<forall>b \<in> insert x A. \<exists>v. map_of m (stackKey b) = Some v \<and> bi_start b \<le> bi_start v"
        using latest Some False by auto
      then show ?thesis using d kv by (auto simp: stackInv_def step)
    qed
  qed
qed

lemma foldl_stackStep_inv:
  "stackInv A m \<Longrightarrow> stackInv (A \<union> set xs) (foldl stackStep m xs)"
proof (induction xs arbitrary: A m)
  case Nil
  then show ?case by simp
next
  case (Cons x xs)
  from Cons.IH[OF stackStep_inv[OF Cons.prems, of x]] show ?case by simp
qed

lemma stacked_inv: "stackInv (set act) (stacked act)"
proof -
  have "stackInv {} []" by (simp add: stackInv_def)
  from foldl_stackStep_inv[OF this, of act] show ?thesis by (simp add: stacked_def)
qed

lemma foldl_addTotal:
  "atk (foldl addTotal tot vs) = atk tot + (\<Sum>s\<leftarrow>vs. contribution SAtk s) \<and>
   crit (foldl addTotal tot vs) = crit tot + (\<Sum>s\<leftarrow>vs. contribution SCrit s) \<and>
   critDmg (foldl addTotal tot vs) = critDmg tot + (\<Sum>s\<leftarrow>vs. contribution SCritDmg s)"
proof (induction vs arbitrary: tot)
  case Nil
  then show ?case by simp
next
  case (Cons v vs)
  show ?case
    using Cons.IH[of "addTotal tot v"]
    by (cases "bi_stat v"; cases "bi_kind v") (simp_all add: addTotal_def contribution_def)
qed

lemma stacked_facts:
  "distinct (map fst (stacked act))"
  "(k, v) \<in> set (stacked act) \<Longrightarrow> stackKey v = k \<and> v \<in> set act"
  "b \<in> set act \<Longrightarrow> \<exists>v. map_of (stacked act) (stackKey b) = Some v \<and> bi_start b \<le> bi_start v"
  using stacked_inv[of act] unfolding stackInv_def by blast+

lemma stacked_subset: "set (map snd (stacked act)) \<subseteq> set act"
proof
  fix v assume "v \<in> set (map snd (stacked act))"
  then obtain k where "(k, v) \<in> set (stacked act)" by force
  then show "v \<in> set act" using stacked_facts(2) by blast
qed

lemma stacked_keys: "map (stackKey \<circ> snd) (stacked act) = map fst (stacked act)"
proof (rule map_cong[OF refl])
  fix p assume "p \<in> set (stacked act)"
  then have "(fst p, snd p) \<in> set (stacked act)" by simp
  then have "stackKey (snd p) = fst p" using stacked_facts(2) by blast
  then show "(stackKey \<circ> snd) p = fst p" by simp
qed

lemma stacked_distinct_groups: "distinct (map stackGroupOf (map snd (stacked act)))"
proof -
  have "distinct (map (stackKey \<circ> snd) (stacked act))"
    unfolding stacked_keys by (rule stacked_facts(1))
  then have "distinct (map stackKey (map snd (stacked act)))" by (simp only: map_map)
  then have dk: "distinct (map snd (stacked act))"
    and ik: "inj_on stackKey (set (map snd (stacked act)))"
    unfolding distinct_map by blast+
  have "inj_on stackGroupOf (set (map snd (stacked act)))"
  proof (rule inj_onI)
    fix p q assume p: "p \<in> set (map snd (stacked act))" and q: "q \<in> set (map snd (stacked act))"
      and e: "stackGroupOf p = stackGroupOf q"
    have "stackKey p = stackKey q" using e stackKey_inj by blast
    then show "p = q" using p q by (rule inj_onD[OF ik])
  qed
  then show ?thesis using dk unfolding distinct_map by blast
qed

lemma stacked_latest:
  assumes "b \<in> set act"
  shows "\<exists>s \<in> set (map snd (stacked act)). stackGroupOf s = stackGroupOf b \<and> bi_start b \<le> bi_start s"
proof -
  obtain v where v: "map_of (stacked act) (stackKey b) = Some v" "bi_start b \<le> bi_start v"
    using stacked_facts(3)[OF assms] by blast
  have m: "(stackKey b, v) \<in> set (stacked act)" using v(1) by (rule map_of_SomeD)
  then have "stackKey v = stackKey b" using stacked_facts(2) by blast
  then have g: "stackGroupOf v = stackGroupOf b" using stackKey_inj by blast
  have "snd (stackKey b, v) \<in> snd ` set (stacked act)" using m by (rule imageI)
  then have "v \<in> set (map snd (stacked act))" by simp
  then show ?thesis using g v(2) by blast
qed

lemma totals_sum:
  "foldl addTotal \<lparr> atk = 0, crit = 0, critDmg = 0 \<rparr> vs
     = \<lparr> atk = (\<Sum>s\<leftarrow>vs. contribution SAtk s),
         crit = (\<Sum>s\<leftarrow>vs. contribution SCrit s),
         critDmg = (\<Sum>s\<leftarrow>vs. contribution SCritDmg s) \<rparr>"
  using foldl_addTotal[of "\<lparr> atk = 0, crit = 0, critDmg = 0 \<rparr>" vs] by simp

lemma computeStats_active:
  "active (computeStatsAtTime target t instances)
     = filter (\<lambda>item. bi_studentId item = tg_id target \<and> bi_start item \<le> t \<and> t < bi_end item)
         instances"
  by (simp add: computeStatsAtTime_def Let_def activeAt_def[abs_def])

lemma computeStats_totals:
  "totals (computeStatsAtTime target t instances)
     = foldl addTotal \<lparr> atk = 0, crit = 0, critDmg = 0 \<rparr>
         (map snd (stacked (active (computeStatsAtTime target t instances))))"
  by (simp add: computeStatsAtTime_def Let_def)

lemma computeStats_computed:
  "computed (computeStatsAtTime target t instances)
     = \<lparr> atk = atk (tg_stats target) * (1 + atk (totals (computeStatsAtTime target t instances))),
         crit = crit (tg_stats target) * (1 + crit (totals (computeStatsAtTime target t instances))),
         critDmg = critDmg (tg_stats target)
                     * (1 + critDmg (totals (computeStatsAtTime target t instances))) \<rparr>"
  by (simp add: computeStatsAtTime_def Let_def)

section \<open>Lemmas on lane assignment\<close>

lemma findIndex_Some: "findIndex P xs = Some i \<Longrightarrow> i < length xs \<and> P (xs ! i)"
proof (induction xs arbitrary: i)
  case Nil
  then show ?case by simp
next
  case (Cons x xs)
  show ?case
  proof (cases "P x")
    case True
    then show ?thesis using Cons.prems by simp
  next
    case False
    then obtain j where j: "findIndex P xs = Some j" "i = Suc j" using Cons.prems by auto
    then show ?thesis using Cons.IH[OF j(1)] by simp
  qed
qed

lemma findIndex_None: "findIndex P xs = None \<Longrightarrow> \<forall>x \<in> set xs. \<not> P x"
  by (induction xs) (auto split: if_splits)

lemma activeCount_snoc:
  "activeCount t (ps @ [x]) = activeCount t ps + (if bi_start x \<le> t \<and> t < bi_end x then 1 else 0)"
  by (simp add: activeCount_def)

lemma activeCount_perm: "mset xs = mset ys \<Longrightarrow> activeCount t xs = activeCount t ys"
  unfolding activeCount_def by (metis mset_filter size_mset)

lemma laneInvI:
  assumes "\<And>b. b \<in> set ps \<Longrightarrow> \<exists>l < length ends. m (bi_id b) = Some l \<and> bi_end b \<le> ends ! l"
    and "\<And>l. l < length ends \<Longrightarrow> \<exists>b \<in> set ps. m (bi_id b) = Some l \<and> bi_end b = ends ! l"
    and "\<And>a b. a \<in> set ps \<Longrightarrow> b \<in> set ps \<Longrightarrow> a \<noteq> b \<Longrightarrow> m (bi_id a) = m (bi_id b) \<Longrightarrow>
           bi_end a \<le> bi_start b \<or> bi_end b \<le> bi_start a"
    and "ends \<noteq> [] \<Longrightarrow> \<exists>t. length ends \<le> activeCount t ps"
  shows "laneInv ps (ends, m)"
  unfolding laneInv_def fst_conv snd_conv using assms by blast

lemma laneInvD:
  assumes "laneInv ps (ends, m)"
  shows "\<And>b. b \<in> set ps \<Longrightarrow> \<exists>l < length ends. m (bi_id b) = Some l \<and> bi_end b \<le> ends ! l"
    and "\<And>l. l < length ends \<Longrightarrow> \<exists>b \<in> set ps. m (bi_id b) = Some l \<and> bi_end b = ends ! l"
    and "\<And>a b. a \<in> set ps \<Longrightarrow> b \<in> set ps \<Longrightarrow> a \<noteq> b \<Longrightarrow> m (bi_id a) = m (bi_id b) \<Longrightarrow>
           bi_end a \<le> bi_start b \<or> bi_end b \<le> bi_start a"
    and "ends \<noteq> [] \<Longrightarrow> \<exists>t. length ends \<le> activeCount t ps"
  using assms unfolding laneInv_def fst_conv snd_conv by blast+

lemma laneStep_reuse:
  assumes inv: "laneInv ps (ends, m)"
    and new: "bi_id x \<notin> bi_id ` set ps"
    and pos: "bi_start x < bi_end x"
    and i: "i < length ends" "ends ! i \<le> bi_start x"
  shows "laneInv (ps @ [x]) (ends[i := bi_end x], m(bi_id x \<mapsto> i))"
proof (rule laneInvI)
  have old: "(m(bi_id x \<mapsto> i)) (bi_id b) = m (bi_id b)" if "b \<in> set ps" for b
  proof -
    have "bi_id b \<noteq> bi_id x" using new that by (metis image_eqI)
    then show ?thesis by simp
  qed
  {
    fix b assume b: "b \<in> set (ps @ [x])"
    show "\<exists>l < length (ends[i := bi_end x]).
            (m(bi_id x \<mapsto> i)) (bi_id b) = Some l \<and> bi_end b \<le> ends[i := bi_end x] ! l"
    proof (cases "b \<in> set ps")
      case True
      then obtain l where l: "l < length ends" "m (bi_id b) = Some l" "bi_end b \<le> ends ! l"
        using laneInvD(1)[OF inv] by blast
      have "bi_end b \<le> ends[i := bi_end x] ! l"
      proof (cases "l = i")
        case True
        then show ?thesis using l i pos by simp
      next
        case False
        then show ?thesis using l by simp
      qed
      moreover have "l < length (ends[i := bi_end x])" using l by simp
      moreover have "(m(bi_id x \<mapsto> i)) (bi_id b) = Some l" using l old[OF True] by simp
      ultimately show ?thesis by blast
    next
      case False
      then have bx: "b = x" using b by simp
      have "i < length (ends[i := bi_end x])" using i by simp
      moreover have "(m(bi_id x \<mapsto> i)) (bi_id b) = Some i" using bx by simp
      moreover have "bi_end b \<le> ends[i := bi_end x] ! i" using bx i by simp
      ultimately show ?thesis by blast
    qed
  next
    fix l assume l: "l < length (ends[i := bi_end x])"
    show "\<exists>b \<in> set (ps @ [x]).
            (m(bi_id x \<mapsto> i)) (bi_id b) = Some l \<and> bi_end b = ends[i := bi_end x] ! l"
    proof (cases "l = i")
      case True
      have "x \<in> set (ps @ [x])" by simp
      moreover have "(m(bi_id x \<mapsto> i)) (bi_id x) = Some l" using True by simp
      moreover have "bi_end x = ends[i := bi_end x] ! l" using True i by simp
      ultimately show ?thesis by blast
    next
      case False
      have "l < length ends" using l by simp
      then obtain b where b: "b \<in> set ps" "m (bi_id b) = Some l" "bi_end b = ends ! l"
        using laneInvD(2)[OF inv, of l] by blast
      have "b \<in> set (ps @ [x])" using b(1) by simp
      moreover have "(m(bi_id x \<mapsto> i)) (bi_id b) = Some l" using b old[OF b(1)] by simp
      moreover have "bi_end b = ends[i := bi_end x] ! l" using b False by simp
      ultimately show ?thesis by blast
    qed
  next
    fix a b assume a: "a \<in> set (ps @ [x])" and b: "b \<in> set (ps @ [x])" and ne: "a \<noteq> b"
      and same: "(m(bi_id x \<mapsto> i)) (bi_id a) = (m(bi_id x \<mapsto> i)) (bi_id b)"
    have onx: "bi_end c \<le> bi_start x" if c: "c \<in> set ps" and lane: "m (bi_id c) = Some i" for c
    proof -
      obtain l where l: "m (bi_id c) = Some l" "bi_end c \<le> ends ! l"
        using laneInvD(1)[OF inv c] by blast
      then show ?thesis using lane i by simp
    qed
    show "bi_end a \<le> bi_start b \<or> bi_end b \<le> bi_start a"
    proof (cases "a \<in> set ps")
      case True
      note ina = this
      show ?thesis
      proof (cases "b \<in> set ps")
        case True
        then show ?thesis using laneInvD(3)[OF inv ina True ne] same old[OF ina] old[OF True] by simp
      next
        case False
        then have bx: "b = x" using b by simp
        then have "m (bi_id a) = Some i" using same old[OF ina] by simp
        then show ?thesis using onx[OF ina] bx by simp
      qed
    next
      case False
      then have ax: "a = x" using a by simp
      then have inb: "b \<in> set ps" using b ne by auto
      have "m (bi_id b) = Some i" using same old[OF inb] ax by simp
      then show ?thesis using onx[OF inb] ax by simp
    qed
  next
    assume "ends[i := bi_end x] \<noteq> []"
    then have "ends \<noteq> []" by simp
    then obtain t where "length ends \<le> activeCount t ps" using laneInvD(4)[OF inv] by blast
    then have "length (ends[i := bi_end x]) \<le> activeCount t (ps @ [x])"
      by (simp add: activeCount_snoc)
    then show "\<exists>t. length (ends[i := bi_end x]) \<le> activeCount t (ps @ [x])" ..
  }
qed

lemma lanes_active:
  assumes inv: "laneInv ps (ends, m)"
    and before: "\<forall>b \<in> set ps. bi_start b \<le> t"
    and busy: "\<forall>e \<in> set ends. t < e"
  shows "length ends \<le> activeCount t ps"
proof -
  let ?act = "filter (\<lambda>b. bi_start b \<le> t \<and> t < bi_end b) ps"
  let ?lane = "\<lambda>b. the (m (bi_id b))"
  have sub: "{..<length ends} \<subseteq> ?lane ` set ?act"
  proof
    fix l assume "l \<in> {..<length ends}"
    then have l: "l < length ends" by simp
    obtain b where b: "b \<in> set ps" "m (bi_id b) = Some l" "bi_end b = ends ! l"
      using laneInvD(2)[OF inv l] by blast
    have "ends ! l \<in> set ends" using l by (rule nth_mem)
    then have "t < bi_end b" using busy b(3) by simp
    moreover have "bi_start b \<le> t" using before b(1) by blast
    ultimately have "b \<in> set ?act" using b(1) by simp
    moreover have "l = ?lane b" using b(2) by simp
    ultimately show "l \<in> ?lane ` set ?act" by (rule rev_image_eqI)
  qed
  have "length ends = card {..<length ends}" by simp
  also have "\<dots> \<le> card (?lane ` set ?act)" using sub by (intro card_mono) simp_all
  also have "\<dots> \<le> card (set ?act)" by (intro card_image_le) simp
  also have "\<dots> \<le> length ?act" by (rule card_length)
  finally show ?thesis unfolding activeCount_def .
qed

lemma laneStep_open:
  assumes inv: "laneInv ps (ends, m)"
    and new: "bi_id x \<notin> bi_id ` set ps"
    and pos: "bi_start x < bi_end x"
    and before: "\<forall>b \<in> set ps. bi_start b \<le> bi_start x"
    and busy: "\<forall>e \<in> set ends. bi_start x < e"
  shows "laneInv (ps @ [x]) (ends @ [bi_end x], m(bi_id x \<mapsto> length ends))"
proof (rule laneInvI)
  have old: "(m(bi_id x \<mapsto> length ends)) (bi_id b) = m (bi_id b)" if "b \<in> set ps" for b
  proof -
    have "bi_id b \<noteq> bi_id x" using new that by (metis image_eqI)
    then show ?thesis by simp
  qed
  {
    fix b assume b: "b \<in> set (ps @ [x])"
    show "\<exists>l < length (ends @ [bi_end x]).
            (m(bi_id x \<mapsto> length ends)) (bi_id b) = Some l \<and> bi_end b \<le> (ends @ [bi_end x]) ! l"
    proof (cases "b \<in> set ps")
      case True
      then obtain l where l: "l < length ends" "m (bi_id b) = Some l" "bi_end b \<le> ends ! l"
        using laneInvD(1)[OF inv] by blast
      have "l < length (ends @ [bi_end x])" using l by simp
      moreover have "(m(bi_id x \<mapsto> length ends)) (bi_id b) = Some l" using l old[OF True] by simp
      moreover have "bi_end b \<le> (ends @ [bi_end x]) ! l" using l by (simp add: nth_append)
      ultimately show ?thesis by blast
    next
      case False
      then have bx: "b = x" using b by simp
      have "length ends < length (ends @ [bi_end x])" by simp
      moreover have "(m(bi_id x \<mapsto> length ends)) (bi_id b) = Some (length ends)" using bx by simp
      moreover have "bi_end b \<le> (ends @ [bi_end x]) ! length ends" using bx by simp
      ultimately show ?thesis by blast
    qed
  next
    fix l assume l: "l < length (ends @ [bi_end x])"
    show "\<exists>b \<in> set (ps @ [x]).
            (m(bi_id x \<mapsto> length ends)) (bi_id b) = Some l \<and> bi_end b = (ends @ [bi_end x]) ! l"
    proof (cases "l = length ends")
      case True
      have "x \<in> set (ps @ [x])" by simp
      moreover have "(m(bi_id x \<mapsto> length ends)) (bi_id x) = Some l" using True by simp
      moreover have "bi_end x = (ends @ [bi_end x]) ! l" using True by simp
      ultimately show ?thesis by blast
    next
      case False
      then have ll: "l < length ends" using l by simp
      then obtain b where b: "b \<in> set ps" "m (bi_id b) = Some l" "bi_end b = ends ! l"
        using laneInvD(2)[OF inv, of l] by blast
      have "b \<in> set (ps @ [x])" using b(1) by simp
      moreover have "(m(bi_id x \<mapsto> length ends)) (bi_id b) = Some l" using b old[OF b(1)] by simp
      moreover have "bi_end b = (ends @ [bi_end x]) ! l" using b ll by (simp add: nth_append)
      ultimately show ?thesis by blast
    qed
  next
    fix a b assume a: "a \<in> set (ps @ [x])" and b: "b \<in> set (ps @ [x])" and ne: "a \<noteq> b"
      and same: "(m(bi_id x \<mapsto> length ends)) (bi_id a) = (m(bi_id x \<mapsto> length ends)) (bi_id b)"
    have notnew: "m (bi_id c) \<noteq> Some (length ends)" if c: "c \<in> set ps" for c
    proof -
      obtain l where "l < length ends" "m (bi_id c) = Some l"
        using laneInvD(1)[OF inv c] by blast
      then show ?thesis by simp
    qed
    show "bi_end a \<le> bi_start b \<or> bi_end b \<le> bi_start a"
    proof (cases "a \<in> set ps")
      case True
      note ina = this
      show ?thesis
      proof (cases "b \<in> set ps")
        case True
        then show ?thesis using laneInvD(3)[OF inv ina True ne] same old[OF ina] old[OF True] by simp
      next
        case False
        then have bx: "b = x" using b by simp
        then have "m (bi_id a) = Some (length ends)" using same old[OF ina] by simp
        then show ?thesis using notnew[OF ina] by simp
      qed
    next
      case False
      then have ax: "a = x" using a by simp
      then have inb: "b \<in> set ps" using b ne by auto
      have "m (bi_id b) = Some (length ends)" using same old[OF inb] ax by simp
      then show ?thesis using notnew[OF inb] by simp
    qed
  next
    have "length ends \<le> activeCount (bi_start x) ps"
      using lanes_active[OF inv before busy] .
    then have "length (ends @ [bi_end x]) \<le> activeCount (bi_start x) (ps @ [x])"
      using pos by (simp add: activeCount_snoc)
    then show "\<exists>t. length (ends @ [bi_end x]) \<le> activeCount t (ps @ [x])" ..
  }
qed

lemma laneStep_inv:
  assumes inv: "laneInv ps s"
    and new: "bi_id x \<notin> bi_id ` set ps"
    and pos: "bi_start x < bi_end x"
    and before: "\<forall>b \<in> set ps. bi_start b \<le> bi_start x"
  shows "laneInv (ps @ [x]) (laneStep s x)"
proof -
  obtain ends m where s: "s = (ends, m)" by (cases s)
  show ?thesis
  proof (cases "findIndex (\<lambda>endT. bi_start x \<ge> endT) ends")
    case None
    have busy: "\<forall>e \<in> set ends. bi_start x < e"
      using findIndex_None[OF None] by (simp add: not_le)
    have "laneStep s x = (ends @ [bi_end x], m(bi_id x \<mapsto> length ends))"
      using None by (simp add: laneStep_def s)
    then show ?thesis
      using laneStep_open[OF inv[unfolded s] new pos before busy] by simp
  next
    case (Some i)
    have i: "i < length ends" "ends ! i \<le> bi_start x"
      using findIndex_Some[OF Some] by simp_all
    have "laneStep s x = (ends[i := bi_end x], m(bi_id x \<mapsto> i))"
      using Some by (simp add: laneStep_def s)
    then show ?thesis
      using laneStep_reuse[OF inv[unfolded s] new pos i] by simp
  qed
qed

lemma foldl_laneStep_inv:
  "laneInv ps s \<Longrightarrow> distinct (map bi_id (ps @ xs)) \<Longrightarrow>
   sorted_wrt (\<lambda>a b. bi_start a \<le> bi_start b) (ps @ xs) \<Longrightarrow>
   \<forall>x \<in> set xs. bi_start x < bi_end x \<Longrightarrow>
   laneInv (ps @ xs) (foldl laneStep s xs)"
proof (induction xs arbitrary: ps s)
  case Nil
  then show ?case by simp
next
  case (Cons x xs)
  have new: "bi_id x \<notin> bi_id ` set ps" using Cons.prems(2) by auto
  have pos: "bi_start x < bi_end x" using Cons.prems(4) by simp
  have before: "\<forall>b \<in> set ps. bi_start b \<le> bi_start x"
    using Cons.prems(3) by (simp add: sorted_wrt_append)
  have 1: "laneInv (ps @ [x]) (laneStep s x)"
    using laneStep_inv[OF Cons.prems(1) new pos before] .
  have "laneInv ((ps @ [x]) @ xs) (foldl laneStep (laneStep s x) xs)"
    using Cons.prems(2,3,4) by (intro Cons.IH[OF 1]) simp_all
  then show ?case by simp
qed

lemma active_le_lanes:
  fixes f :: "BuffInstance \<Rightarrow> nat"
  assumes d: "distinct xs"
    and sep: "\<And>a b. a \<in> set xs \<Longrightarrow> b \<in> set xs \<Longrightarrow> a \<noteq> b \<Longrightarrow> f a = f b \<Longrightarrow>
                bi_end a \<le> bi_start b \<or> bi_end b \<le> bi_start a"
  shows "activeCount t xs \<le> card (f ` set xs)"
proof -
  let ?act = "filter (\<lambda>b. bi_start b \<le> t \<and> t < bi_end b) xs"
  have inj: "inj_on f (set ?act)"
  proof (rule inj_onI)
    fix a b assume a: "a \<in> set ?act" and b: "b \<in> set ?act" and e: "f a = f b"
    show "a = b"
    proof (rule ccontr)
      assume ne: "a \<noteq> b"
      have "a \<in> set xs" "b \<in> set xs" using a b by simp_all
      then have "bi_end a \<le> bi_start b \<or> bi_end b \<le> bi_start a" using sep ne e by blast
      moreover have "bi_start a \<le> t" "t < bi_end a" "bi_start b \<le> t" "t < bi_end b"
        using a b by simp_all
      ultimately show False by linarith
    qed
  qed
  have "distinct ?act" using d by (rule distinct_filter)
  then have "card (set ?act) = length ?act" by (rule distinct_card)
  then have "activeCount t xs = card (set ?act)"
    unfolding activeCount_def by (rule sym)
  also have "\<dots> = card (f ` set ?act)" using inj by (simp add: card_image)
  also have "\<dots> \<le> card (f ` set xs)" by (intro card_mono) auto
  finally show ?thesis .
qed

lemma laneInv_empty: "laneInv [] ([], Map.empty)"
  by (rule laneInvI) simp_all

lemma buildBuffLanes_inv:
  assumes d: "distinct (map bi_id buffs)" and pos: "\<forall>b \<in> set buffs. bi_start b < bi_end b"
  shows "laneInv (sort_key bi_start buffs)
           (foldl laneStep ([], Map.empty) (sortBy (\<lambda>a b. bi_start a - bi_start b) buffs))"
proof -
  let ?s = "sort_key bi_start buffs"
  have "mset (map bi_id ?s) = mset (map bi_id buffs)" by simp
  then have 1: "distinct (map bi_id ([] @ ?s))" using d by (metis append_Nil mset_eq_imp_distinct_iff)
  have "sorted (map bi_start ?s)" by simp
  then have 2: "sorted_wrt (\<lambda>a b. bi_start a \<le> bi_start b) ([] @ ?s)" by (simp add: sorted_map)
  have 3: "\<forall>x \<in> set ?s. bi_start x < bi_end x" using pos by simp
  have "laneInv ([] @ ?s) (foldl laneStep ([], Map.empty) ?s)"
    using laneInv_empty 1 2 3 by (rule foldl_laneStep_inv)
  then show ?thesis by (simp add: sortBy_start)
qed

lemma buildBuffLanes_result:
  "buildBuffLanes buffs =
     \<lparr> laneMap = snd (foldl laneStep ([], Map.empty) (sortBy (\<lambda>a b. bi_start a - bi_start b) buffs)),
       laneCount = max 1 (length (fst (foldl laneStep ([], Map.empty)
                                         (sortBy (\<lambda>a b. bi_start a - bi_start b) buffs)))) \<rparr>"
  by (simp add: buildBuffLanes_def Let_def)

lemma buildBuffLanes_general:
  assumes d: "distinct (map bi_id buffs)" and pos: "\<forall>b \<in> set buffs. bi_start b < bi_end b"
  shows "(\<forall>b \<in> set buffs. \<exists>l < laneCount (buildBuffLanes buffs).
            laneMap (buildBuffLanes buffs) (bi_id b) = Some l)"
    and "(\<forall>a \<in> set buffs. \<forall>b \<in> set buffs. a \<noteq> b \<longrightarrow>
            laneMap (buildBuffLanes buffs) (bi_id a) = laneMap (buildBuffLanes buffs) (bi_id b) \<longrightarrow>
            bi_end a \<le> bi_start b \<or> bi_end b \<le> bi_start a)"
    and "activeCount t buffs \<le> laneCount (buildBuffLanes buffs)"
    and "buffs \<noteq> [] \<Longrightarrow> \<exists>t. activeCount t buffs = laneCount (buildBuffLanes buffs)"
proof -
  obtain ends m where s: "foldl laneStep ([], Map.empty)
      (sortBy (\<lambda>a b. bi_start a - bi_start b) buffs) = (ends, m)"
    by (cases "foldl laneStep ([], Map.empty) (sortBy (\<lambda>a b. bi_start a - bi_start b) buffs)")
  have r: "laneMap (buildBuffLanes buffs) = m" "laneCount (buildBuffLanes buffs) = max 1 (length ends)"
    by (simp_all add: buildBuffLanes_result s)
  have inv: "laneInv (sort_key bi_start buffs) (ends, m)"
    using buildBuffLanes_inv[OF d pos] by (simp add: s)
  have A: "\<exists>l < length ends. m (bi_id b) = Some l" if "b \<in> set buffs" for b
    using laneInvD(1)[OF inv, of b] that by auto
  have C: "bi_end a \<le> bi_start b \<or> bi_end b \<le> bi_start a"
    if "a \<in> set buffs" "b \<in> set buffs" "a \<noteq> b" "m (bi_id a) = m (bi_id b)" for a b
    using laneInvD(3)[OF inv, of a b] that by simp
  show 1: "\<forall>b \<in> set buffs. \<exists>l < laneCount (buildBuffLanes buffs).
            laneMap (buildBuffLanes buffs) (bi_id b) = Some l"
  proof
    fix b assume "b \<in> set buffs"
    then obtain l where "l < length ends" "m (bi_id b) = Some l" using A by blast
    then have "l < max 1 (length ends) \<and> m (bi_id b) = Some l" by simp
    then show "\<exists>l < laneCount (buildBuffLanes buffs). laneMap (buildBuffLanes buffs) (bi_id b) = Some l"
      unfolding r by blast
  qed
  show "\<forall>a \<in> set buffs. \<forall>b \<in> set buffs. a \<noteq> b \<longrightarrow>
            laneMap (buildBuffLanes buffs) (bi_id a) = laneMap (buildBuffLanes buffs) (bi_id b) \<longrightarrow>
            bi_end a \<le> bi_start b \<or> bi_end b \<le> bi_start a"
    unfolding r using C by blast
  let ?lane = "\<lambda>b. the (m (bi_id b))"
  have upper: "activeCount u buffs \<le> length ends" for u
  proof -
    have db: "distinct buffs" using d by (simp add: distinct_map)
    have "activeCount u buffs \<le> card (?lane ` set buffs)"
    proof (rule active_le_lanes[OF db])
      fix a b assume a: "a \<in> set buffs" and b: "b \<in> set buffs" and ne: "a \<noteq> b"
        and e: "?lane a = ?lane b"
      obtain la lb where "m (bi_id a) = Some la" "m (bi_id b) = Some lb" using A a b by blast
      then have "m (bi_id a) = m (bi_id b)" using e by simp
      then show "bi_end a \<le> bi_start b \<or> bi_end b \<le> bi_start a" using C a b ne by blast
    qed
    also have "\<dots> \<le> card {..<length ends}"
    proof (rule card_mono)
      show "?lane ` set buffs \<subseteq> {..<length ends}"
      proof
        fix l assume "l \<in> ?lane ` set buffs"
        then obtain b where b: "b \<in> set buffs" "l = ?lane b" by blast
        obtain l' where "l' < length ends" "m (bi_id b) = Some l'" using A b(1) by blast
        then show "l \<in> {..<length ends}" using b(2) by simp
      qed
    qed simp
    finally show ?thesis by simp
  qed
  show "activeCount t buffs \<le> laneCount (buildBuffLanes buffs)"
    unfolding r using upper[of t] by simp
  show "\<exists>t. activeCount t buffs = laneCount (buildBuffLanes buffs)" if ne: "buffs \<noteq> []"
  proof -
    obtain b where "b \<in> set buffs" using ne by (cases buffs) auto
    then obtain l where "l < length ends" using A by blast
    then have ends: "ends \<noteq> []" "max 1 (length ends) = length ends" by auto
    obtain u where "length ends \<le> activeCount u (sort_key bi_start buffs)"
      using laneInvD(4)[OF inv ends(1)] by blast
    moreover have "activeCount u (sort_key bi_start buffs) = activeCount u buffs"
      by (rule activeCount_perm) simp
    ultimately have "activeCount u buffs = length ends" using upper[of u] by simp
    then show ?thesis unfolding r ends(2) by blast
  qed
qed

lemma buildBuffLanes_empty: "laneCount (buildBuffLanes []) = 1"
  by (simp add: buildBuffLanes_def)

section \<open>Lemmas on the share token\<close>





lemma target_kept:
  "(case Some m of Some ModeAll \<Rightarrow> ModeAll | Some ModeStudent \<Rightarrow> ModeStudent
      | Some ModeEnemy \<Rightarrow> ModeEnemy | _ \<Rightarrow> ModeSelf) = m"
  by (cases m) simp_all







section \<open>Lemmas on the identity of instances\<close>

lemma distinct_concat_keyed:
  assumes "distinct (map k xs)"
    and "\<And>x. x \<in> set xs \<Longrightarrow> distinct (f x)"
    and "\<And>x y. x \<in> set xs \<Longrightarrow> y \<in> set (f x) \<Longrightarrow> g y = k x"
  shows "distinct (concat (map f xs))"
  using assms
proof (induction xs)
  case Nil
  then show ?case by simp
next
  case (Cons x xs)
  have rest: "distinct (concat (map f xs))"
    using Cons.prems by (intro Cons.IH) auto
  have here: "distinct (f x)" using Cons.prems(2) by simp
  have disj: "set (f x) \<inter> set (concat (map f xs)) = {}"
  proof (rule ccontr)
    assume "set (f x) \<inter> set (concat (map f xs)) \<noteq> {}"
    then obtain y x' where y: "y \<in> set (f x)" "x' \<in> set xs" "y \<in> set (f x')" by auto
    have "g y = k x" using Cons.prems(3)[of x y] y(1) by simp
    moreover have "g y = k x'" using Cons.prems(3)[of x' y] y(2,3) by simp
    ultimately have "k x \<in> k ` set xs" using y(2) by (metis imageI)
    then show False using Cons.prems(1) by simp
  qed
  show ?case using rest here disj by simp
qed

lemma find_mem: "find P xs = Some x \<Longrightarrow> x \<in> set xs"
  by (auto simp: find_Some_iff)

lemma findSkill_buffs:
  "findSkill student event = Some skill \<Longrightarrow> skill_buffs skill \<in> set (studentBuffs student)"
  unfolding findSkill_def lookupSkill_def studentBuffs_def
  by (auto split: if_splits option.splits dest: find_mem)

lemma buffInstancesOf_triple:
  "y \<in> set (buffInstancesOf ids T ts student skill event buff) \<Longrightarrow>
   instanceTriple y = (Some (evt_id event), buff_id buff, bi_studentId y)"
  by (auto simp: buffInstancesOf_def Let_def instanceTriple_def mkInstance_def)

lemma eventInstances_triples:
  assumes ok: "\<forall>student \<in> set students. \<forall>buffs \<in> set (studentBuffs student).
             distinct (map buff_id buffs) \<and>
             (\<forall>buff \<in> set buffs. distinct (finalTargets (map st_id students) event buff))"
  shows "distinct (map instanceTriple (eventInstances students T ts event))"
    and "y \<in> set (eventInstances students T ts event) \<Longrightarrow> fst (instanceTriple y) = Some (evt_id event)"
proof -
  show "fst (instanceTriple y) = Some (evt_id event)" if "y \<in> set (eventInstances students T ts event)"
    using that by (auto simp: eventInstances_def split: option.splits dest: buffInstancesOf_triple)
  show "distinct (map instanceTriple (eventInstances students T ts event))"
  proof (cases "find (\<lambda>item. st_id item = evt_studentId event) students")
    case None
    then show ?thesis by (simp add: eventInstances_def)
  next
    case (Some student)
    then have st: "student \<in> set students" by (rule find_mem)
    show ?thesis
    proof (cases "findSkill student event")
      case None
      then show ?thesis using Some by (simp add: eventInstances_def)
    next
      case (Some skill)
      have b: "skill_buffs skill \<in> set (studentBuffs student)" using Some by (rule findSkill_buffs)
      have d: "distinct (map buff_id (skill_buffs skill))"
        and f: "\<forall>buff \<in> set (skill_buffs skill). distinct (finalTargets (map st_id students) event buff)"
        using ok st b by blast+
      have "distinct (concat (map (\<lambda>buff. map instanceTriple
               (buffInstancesOf (map st_id students) T ts student skill event buff))
               (skill_buffs skill)))"
      proof (rule distinct_concat_keyed[where k = buff_id and g = "\<lambda>t. fst (snd t)"])
        show "distinct (map buff_id (skill_buffs skill))" by (rule d)
        show "distinct (map instanceTriple
               (buffInstancesOf (map st_id students) T ts student skill event buff))"
          if "buff \<in> set (skill_buffs skill)" for buff
          using f that buffInstancesOf_distinct by blast
        show "fst (snd t) = buff_id buff"
          if "buff \<in> set (skill_buffs skill)"
            "t \<in> set (map instanceTriple
               (buffInstancesOf (map st_id students) T ts student skill event buff))" for buff t
          using that(2) by (auto dest: buffInstancesOf_triple)
      qed
      then show ?thesis
        using Some \<open>find _ students = Some student\<close>
        by (simp add: eventInstances_def map_concat comp_def)
    qed
  qed
qed

lemma triples_distinct:
  assumes "distinct (map st_id students)"
    and "distinct (map evt_id events)"
    and "\<forall>student \<in> set students. \<forall>buffs \<in> set (studentBuffs student).
           distinct (map buff_id buffs) \<and>
           (\<forall>buff \<in> set buffs. idsDistinct (buff_targetStudentIds buff))"
    and "\<forall>event \<in> set events.
           idsDistinct (evt_targetStudentIds event) \<and>
           (\<forall>buff. idsDistinct (case override event buff of
                                   None \<Rightarrow> None | Some ov \<Rightarrow> ts_targetStudentIds ov))"
  shows "(\<forall>event \<in> set events. \<forall>student \<in> set students.
            \<forall>buffs \<in> set (studentBuffs student). \<forall>buff \<in> set buffs.
              distinct (finalTargets (map st_id students) event buff))
     \<and> distinct (map instanceTriple
          (buildBuffInstances students events nsEnabled nsTargets timelineSeconds timeStep))"
proof -
  have targets: "distinct (finalTargets (map st_id students) event buff)"
    if "event \<in> set events" "student \<in> set students" "buffs \<in> set (studentBuffs student)"
      "buff \<in> set buffs" for event student buffs buff
  proof (rule finalTargets_distinct)
    show "distinct (map st_id students)" by (rule assms(1))
    show "idsDistinct (case override event buff of
                         None \<Rightarrow> None | Some ov \<Rightarrow> ts_targetStudentIds ov)"
      using assms(4) that(1) by blast
    show "idsDistinct (buff_targetStudentIds buff)" using assms(3) that(2,3,4) by blast
    show "idsDistinct (evt_targetStudentIds event)" using assms(4) that(1) by blast
  qed
  have "distinct (concat (map (\<lambda>event. map instanceTriple
          (eventInstances students timelineSeconds timeStep event)) events))"
  proof (rule distinct_concat_keyed[where k = "\<lambda>event. Some (evt_id event)" and g = fst])
    show "distinct (map (\<lambda>event. Some (evt_id event)) events)"
      using assms(2) by (simp add: distinct_map inj_on_def)
    fix event assume e: "event \<in> set events"
    have ok: "\<forall>student \<in> set students. \<forall>buffs \<in> set (studentBuffs student).
             distinct (map buff_id buffs) \<and>
             (\<forall>buff \<in> set buffs. distinct (finalTargets (map st_id students) event buff))"
      using assms(3) targets[OF e] by blast
    show "distinct (map instanceTriple (eventInstances students timelineSeconds timeStep event))"
      using ok by (rule eventInstances_triples(1))
    fix t assume "t \<in> set (map instanceTriple
                    (eventInstances students timelineSeconds timeStep event))"
    then obtain y where y: "y \<in> set (eventInstances students timelineSeconds timeStep event)"
      "t = instanceTriple y" by auto
    show "fst t = Some (evt_id event)"
      unfolding y(2) using ok y(1) by (rule eventInstances_triples(2))
  qed
  then have "distinct (map instanceTriple
          (buildBuffInstances students events nsEnabled nsTargets timelineSeconds timeStep))"
    by (simp add: buildBuffInstances_def map_concat comp_def)
  then show ?thesis using targets by blast
qed

lemma id_split:
  assumes "CHR '':'' \<notin> set x" "CHR '':'' \<notin> set x'" "x @ '':'' @ r = x' @ '':'' @ r'"
  shows "x = x' \<and> r = r'"
  using assms
proof (induction x arbitrary: x')
  case Nil
  then show ?case by (cases x') auto
next
  case (Cons c cs)
  show ?case
  proof (cases x')
    case Nil
    then show ?thesis using Cons.prems by auto
  next
    case (Cons c' cs')
    then have "cs @ '':'' @ r = cs' @ '':'' @ r'" "c = c'" using Cons.prems(3) by simp_all
    moreover have "CHR '':'' \<notin> set cs" "CHR '':'' \<notin> set cs'"
      using Cons.prems(1,2) Cons by simp_all
    ultimately show ?thesis using Cons.IH[of cs'] Cons by simp
  qed
qed

lemma instance_origin:
  assumes "y \<in> set (buildBuffInstances students events nsEnabled nsTargets timelineSeconds timeStep)"
  shows "\<exists>event \<in> set events. \<exists>student \<in> set students.
           \<exists>buffs \<in> set (studentBuffs student). \<exists>buff \<in> set buffs.
             bi_id y = evt_id event @ '':'' @ buff_id buff @ '':'' @ bi_studentId y \<and>
             instanceTriple y = (Some (evt_id event), buff_id buff, bi_studentId y)"
proof -
  obtain event student skill buff t where o: "event \<in> set events"
    "find (\<lambda>item. st_id item = evt_studentId event) students = Some student"
    "findSkill student event = Some skill" "buff \<in> set (skill_buffs skill)"
    "y = mkInstance student skill event buff
           (min (evt_start event + effectDuration timeStep event buff) timelineSeconds) t"
    using assms unfolding buildBuffInstances_mem by blast
  have s: "student \<in> set students" using o(2) by (rule find_mem)
  have b: "skill_buffs skill \<in> set (studentBuffs student)" using o(3) by (rule findSkill_buffs)
  have "bi_id y = evt_id event @ '':'' @ buff_id buff @ '':'' @ bi_studentId y \<and>
        instanceTriple y = (Some (evt_id event), buff_id buff, bi_studentId y)"
    by (simp add: o(5) mkInstance_def instanceTriple_def)
  then show ?thesis using o(1) s b o(4) by blast
qed

lemma ids_distinct:
  assumes d: "distinct (map instanceTriple
          (buildBuffInstances students events nsEnabled nsTargets timelineSeconds timeStep))"
    and ce: "\<forall>event \<in> set events. CHR '':'' \<notin> set (evt_id event)"
    and cb: "\<forall>student \<in> set students. \<forall>buffs \<in> set (studentBuffs student).
               \<forall>buff \<in> set buffs. CHR '':'' \<notin> set (buff_id buff)"
  shows "distinct (map bi_id
          (buildBuffInstances students events nsEnabled nsTargets timelineSeconds timeStep))"
proof -
  let ?xs = "buildBuffInstances students events nsEnabled nsTargets timelineSeconds timeStep"
  have dx: "distinct ?xs" and inj: "inj_on instanceTriple (set ?xs)"
    using d unfolding distinct_map by blast+
  have "inj_on bi_id (set ?xs)"
  proof (rule inj_onI)
    fix y z assume y: "y \<in> set ?xs" and z: "z \<in> set ?xs" and e: "bi_id y = bi_id z"
    have origin: "\<exists>ev (bf :: Buff). ev \<in> set events \<and> CHR '':'' \<notin> set (buff_id bf) \<and>
        bi_id w = evt_id ev @ '':'' @ buff_id bf @ '':'' @ bi_studentId w \<and>
        instanceTriple w = (Some (evt_id ev), buff_id bf, bi_studentId w)"
      if w: "w \<in> set ?xs" for w
    proof -
      from instance_origin[OF w] obtain ev st bs bf where o: "ev \<in> set events"
        "st \<in> set students" "bs \<in> set (studentBuffs st)" "bf \<in> set bs"
        "bi_id w = evt_id ev @ '':'' @ buff_id bf @ '':'' @ bi_studentId w \<and>
         instanceTriple w = (Some (evt_id ev), buff_id bf, bi_studentId w)"
        by (elim bexE)
      have nc: "CHR '':'' \<notin> set (buff_id bf)" using cb o(2,3,4) by (elim ballE) auto
      have all: "ev \<in> set events \<and> CHR '':'' \<notin> set (buff_id bf) \<and>
        bi_id w = evt_id ev @ '':'' @ buff_id bf @ '':'' @ bi_studentId w \<and>
        instanceTriple w = (Some (evt_id ev), buff_id bf, bi_studentId w)"
        using o(1) nc o(5) by (intro conjI) (erule conjunct1 conjunct2 | assumption)+
      show ?thesis by (rule exI[of _ ev], rule exI[of _ bf]) (fact all)
    qed
    obtain ey and by' :: Buff where oy: "ey \<in> set events" "CHR '':'' \<notin> set (buff_id by')"
      "bi_id y = evt_id ey @ '':'' @ buff_id by' @ '':'' @ bi_studentId y"
      "instanceTriple y = (Some (evt_id ey), buff_id by', bi_studentId y)"
      using origin[OF y] by (elim exE conjE)
    obtain ez and bz :: Buff where oz: "ez \<in> set events" "CHR '':'' \<notin> set (buff_id bz)"
      "bi_id z = evt_id ez @ '':'' @ buff_id bz @ '':'' @ bi_studentId z"
      "instanceTriple z = (Some (evt_id ez), buff_id bz, bi_studentId z)"
      using origin[OF z] by (elim exE conjE)
    have c: "CHR '':'' \<notin> set (evt_id ey)" "CHR '':'' \<notin> set (evt_id ez)"
      using ce oy(1) oz(1) by auto
    have eq: "evt_id ey @ '':'' @ (buff_id by' @ '':'' @ bi_studentId y)
            = evt_id ez @ '':'' @ (buff_id bz @ '':'' @ bi_studentId z)"
      using e oy(3) oz(3) by simp
    have 1: "evt_id ey = evt_id ez"
      and r: "buff_id by' @ '':'' @ bi_studentId y = buff_id bz @ '':'' @ bi_studentId z"
      using id_split[OF c eq] by blast+
    have 2: "buff_id by' = buff_id bz \<and> bi_studentId y = bi_studentId z"
      using id_split[OF oy(2) oz(2) r] .
    have "instanceTriple y = instanceTriple z" using 1 2 oy(4) oz(4) by simp
    then show "y = z" using y z by (rule inj_onD[OF inj])
  qed
  then show ?thesis using dx unfolding distinct_map by blast
qed

section \<open>Claims on the Overwrite Resolution Engine\<close>

text \<open>
  Claim C10 (frame property). Every instance in the output of \<open>applyOverwriteRules\<close> is an
  input instance in which at most the end has changed (so id, target, source, kind, stat,
  magnitude, stack group and start are those of the input instance), and the end has not
  grown. No instance appears that was not in the input.
\<close>

theorem applyOverwriteRules_frame:
  "\<forall>b \<in> set (applyOverwriteRules instances).
     \<exists>a \<in> set instances. b = a\<lparr>bi_end := bi_end b\<rparr> \<and> bi_end b \<le> bi_end a"
  using applyOverwriteRules_frame_aux by (simp add: shrunk_def)

theorem applyOverwriteRules_frame_witness:
  "sampleInstance ''a'' ''t'' ''field'' 0 5 0.3
     \<in> set (applyOverwriteRules [sampleInstance ''a'' ''t'' ''field'' 0 10 0.3,
                                  sampleInstance ''b'' ''t'' ''field'' 5 12 0.2])
   \<and> (\<exists>a \<in> set [sampleInstance ''a'' ''t'' ''field'' 0 10 0.3,
                  sampleInstance ''b'' ''t'' ''field'' 5 12 0.2].
        sampleInstance ''a'' ''t'' ''field'' 0 5 0.3
          = a\<lparr>bi_end := bi_end (sampleInstance ''a'' ''t'' ''field'' 0 5 0.3)\<rparr>
        \<and> bi_end (sampleInstance ''a'' ''t'' ''field'' 0 5 0.3) \<le> bi_end a)"
proof -
  have m: "sampleInstance ''a'' ''t'' ''field'' 0 5 0.3
     \<in> set (applyOverwriteRules [sampleInstance ''a'' ''t'' ''field'' 0 10 0.3,
                                  sampleInstance ''b'' ''t'' ''field'' 5 12 0.2])"
    by code_simp
  show ?thesis
    using m applyOverwriteRules_frame[of "[sampleInstance ''a'' ''t'' ''field'' 0 10 0.3,
                                          sampleInstance ''b'' ''t'' ''field'' 5 12 0.2]"]
    by blast
qed





section \<open>Claims on the Instance Expander and the Target Resolver\<close>






text \<open>
  Claim C3, as stated, has mode \<^verbatim>\<open>student\<close> fall back from the override's id list to the
  effect definition's list, then to the cast event's list, then to the owner. The code asks
  first whether the effect definition has a target mode of its own: if it has, the cast
  event's list is never consulted. Here the override selects mode \<^verbatim>\<open>student\<close> with an
  empty list, the effect definition has target \<^verbatim>\<open>self\<close> and no list, and the cast event
  lists student B: the code resolves to the owner A, the stated chain to B.
\<close>

theorem student_fallback_counterexample:
  "targetMode
     (sampleEvent ''e1'' ''A'' 2 3 ModeStudent (Some [''B''])
        (Some [''b1'' \<mapsto> \<lparr> ts_target = ModeStudent, ts_targetStudentIds = Some [] \<rparr>]))
     (sampleBuff ''b1'' KBuff 6 ''field'' (Some ModeSelf)) = ModeStudent
   \<and> finalTargets [''A'', ''B'']
       (sampleEvent ''e1'' ''A'' 2 3 ModeStudent (Some [''B''])
          (Some [''b1'' \<mapsto> \<lparr> ts_target = ModeStudent, ts_targetStudentIds = Some [] \<rparr>]))
       (sampleBuff ''b1'' KBuff 6 ''field'' (Some ModeSelf)) = [''A'']
   \<and> claimedStudentTargets
       (sampleEvent ''e1'' ''A'' 2 3 ModeStudent (Some [''B''])
          (Some [''b1'' \<mapsto> \<lparr> ts_target = ModeStudent, ts_targetStudentIds = Some [] \<rparr>]))
       (sampleBuff ''b1'' KBuff 6 ''field'' (Some ModeSelf)) = [''B'']"
  by (simp add: finalTargets_def rawTargets_def targetMode_def override_def
        claimedStudentTargets_def sampleEvent_def sampleBuff_def ENEMY_ID_def)

text \<open>
  Claim C3, amended. For a cast event whose owner is among the students, and an effect
  definition: the target mode is the per-event per-effect override's, else the effect
  definition's, else the cast event's. Mode \<^verbatim>\<open>self\<close> yields the owner only; mode
  \<^verbatim>\<open>enemy\<close> yields exactly the enemy, whatever the id lists; mode \<^verbatim>\<open>all\<close> yields the
  students' ids. Mode \<^verbatim>\<open>student\<close> chooses the override's id list if non-empty; otherwise,
  when the effect definition has a target mode of its own, the effect definition's list if
  non-empty and else the owner; otherwise the cast event's list if non-empty and else the
  owner; the chosen ids are filtered against the students' ids plus the enemy, and the
  owner is the result when none is left. The result is never empty and names only
  students or the enemy.
\<close>

theorem target_resolution:
  assumes "evt_studentId event \<in> set allStudentIds"
  shows
    "targetMode event buff =
       (case override event buff of
          Some ov \<Rightarrow> ts_target ov
        | None \<Rightarrow> (case buff_target buff of Some m \<Rightarrow> m | None \<Rightarrow> evt_target event))
     \<and> (targetMode event buff = ModeSelf \<longrightarrow>
          finalTargets allStudentIds event buff = [evt_studentId event])
     \<and> (targetMode event buff = ModeEnemy \<longrightarrow>
          finalTargets allStudentIds event buff = [ENEMY_ID])
     \<and> (targetMode event buff = ModeAll \<longrightarrow>
          finalTargets allStudentIds event buff = allStudentIds)
     \<and> (targetMode event buff = ModeStudent \<longrightarrow>
          finalTargets allStudentIds event buff =
            (let chosen =
                   idsOr (case override event buff of
                            None \<Rightarrow> None | Some ov \<Rightarrow> ts_targetStudentIds ov)
                     (case buff_target buff of
                        Some m \<Rightarrow> idsOr (buff_targetStudentIds buff) [evt_studentId event]
                      | None \<Rightarrow> idsOr (evt_targetStudentIds event) [evt_studentId event]);
                 valid = filter (\<lambda>i. i \<in> set (allStudentIds @ [ENEMY_ID])) chosen
             in if valid \<noteq> [] then valid else [evt_studentId event]))
     \<and> finalTargets allStudentIds event buff \<noteq> []
     \<and> set (finalTargets allStudentIds event buff) \<subseteq> set allStudentIds \<union> {ENEMY_ID}"
proof -
  have "targetMode event buff =
       (case override event buff of
          Some ov \<Rightarrow> ts_target ov
        | None \<Rightarrow> (case buff_target buff of Some m \<Rightarrow> m | None \<Rightarrow> evt_target event))"
    by (simp add: targetMode_def)
  moreover note finalTargets_self[of event buff allStudentIds, OF _ assms]
    finalTargets_enemy[of event buff allStudentIds]
    finalTargets_all[of event buff allStudentIds, OF _ assms]
    finalTargets_student[of event buff allStudentIds]
    finalTargets_valid[of event allStudentIds buff, OF assms]
  ultimately show ?thesis by blast
qed

theorem target_resolution_witness:
  "evt_studentId (sampleEvent ''e1'' ''A'' 2 3 ModeStudent (Some [''B'', ''ghost'']) None)
     \<in> set [''A'', ''B'']
   \<and> targetMode (sampleEvent ''e1'' ''A'' 2 3 ModeStudent (Some [''B'', ''ghost'']) None)
        (sampleBuff ''b1'' KBuff 6 ''field'' None) = ModeStudent
   \<and> finalTargets [''A'', ''B'']
        (sampleEvent ''e1'' ''A'' 2 3 ModeStudent (Some [''B'', ''ghost'']) None)
        (sampleBuff ''b1'' KBuff 6 ''field'' None) = [''B'']"
proof -
  have o: "evt_studentId (sampleEvent ''e1'' ''A'' 2 3 ModeStudent (Some [''B'', ''ghost'']) None)
     \<in> set [''A'', ''B'']"
    by (simp add: sampleEvent_def)
  have m: "targetMode (sampleEvent ''e1'' ''A'' 2 3 ModeStudent (Some [''B'', ''ghost'']) None)
        (sampleBuff ''b1'' KBuff 6 ''field'' None) = ModeStudent"
    by (simp add: targetMode_def override_def sampleEvent_def sampleBuff_def)
  have "finalTargets [''A'', ''B'']
        (sampleEvent ''e1'' ''A'' 2 3 ModeStudent (Some [''B'', ''ghost'']) None)
        (sampleBuff ''b1'' KBuff 6 ''field'' None) = [''B'']"
    using m target_resolution[OF o, of "sampleBuff ''b1'' KBuff 6 ''field'' None"]
    by (simp add: override_def sampleEvent_def sampleBuff_def ENEMY_ID_def)
  then show ?thesis using o m by simp
qed

text \<open>
  Claim C8, as stated, has the resolver remove repeated ids. The code filters the chosen
  list and keeps repetitions: a cast event whose explicit list names student B twice gives
  two instances with the same id.
\<close>

theorem repeated_target_counterexample:
  "map bi_id (buildBuffInstances
       [sampleStudent ''A'' [sampleBuff ''b1'' KBuff 6 ''field'' None], sampleStudent ''B'' []]
       [sampleEvent ''e1'' ''A'' 2 3 ModeStudent (Some [''B'', ''B'']) None]
       Map.empty Map.empty 60 (1/10))
     = [''e1:b1:B'', ''e1:b1:B'']"
  by code_simp

text \<open>
  Claim C8, amended. The resolver keeps the multiplicities of the list it chooses. When the
  students' ids are pairwise distinct, the cast events' ids are pairwise distinct, the
  effect definitions of each skill have pairwise distinct ids, and no explicit id list (of
  an effect definition, a cast event or one of its overrides) repeats an id, then the
  resolved target list of every cast event and effect definition repeats no id, and
  \<open>buildBuffInstances\<close> emits no two instances with the same (cast event id, effect
  definition id, target actor id). When moreover no cast-event id and no effect-definition
  id contains a colon, the separator of the instance id, every raw instance id is unique.
\<close>

theorem instances_distinct:
  assumes "distinct (map st_id students)"
    and "distinct (map evt_id events)"
    and "\<forall>student \<in> set students. \<forall>buffs \<in> set (studentBuffs student).
           distinct (map buff_id buffs) \<and>
           (\<forall>buff \<in> set buffs. idsDistinct (buff_targetStudentIds buff))"
    and "\<forall>event \<in> set events.
           idsDistinct (evt_targetStudentIds event) \<and>
           (\<forall>buff. idsDistinct (case override event buff of
                                   None \<Rightarrow> None | Some ov \<Rightarrow> ts_targetStudentIds ov))"
  shows "(\<forall>event \<in> set events. \<forall>student \<in> set students.
            \<forall>buffs \<in> set (studentBuffs student). \<forall>buff \<in> set buffs.
              distinct (finalTargets (map st_id students) event buff))
     \<and> distinct (map instanceTriple
          (buildBuffInstances students events nsEnabled nsTargets timelineSeconds timeStep))
     \<and> ((\<forall>event \<in> set events. CHR '':'' \<notin> set (evt_id event)) \<longrightarrow>
          (\<forall>student \<in> set students. \<forall>buffs \<in> set (studentBuffs student).
             \<forall>buff \<in> set buffs. CHR '':'' \<notin> set (buff_id buff)) \<longrightarrow>
          distinct (map bi_id
            (buildBuffInstances students events nsEnabled nsTargets timelineSeconds timeStep)))"
proof -
  note t = triples_distinct[OF assms, of nsEnabled nsTargets timelineSeconds timeStep]
  have "distinct (map bi_id
            (buildBuffInstances students events nsEnabled nsTargets timelineSeconds timeStep))"
    if "\<forall>event \<in> set events. CHR '':'' \<notin> set (evt_id event)"
      "\<forall>student \<in> set students. \<forall>buffs \<in> set (studentBuffs student).
             \<forall>buff \<in> set buffs. CHR '':'' \<notin> set (buff_id buff)"
    using t that by (intro ids_distinct) simp_all
  then show ?thesis using t by (intro conjI impI) simp_all
qed

theorem instances_distinct_witness:
  "distinct (map st_id [sampleStudent ''A'' [sampleBuff ''b1'' KBuff 6 ''field'' None,
                                             sampleBuff ''b2'' KDebuff 6 ''field'' None],
                        sampleStudent ''B'' []])
   \<and> distinct (map evt_id [sampleEvent ''e1'' ''A'' 2 3 ModeAll None None,
                           sampleEvent ''e2'' ''A'' 4 3 ModeStudent (Some [''B'', ''A'']) None])
   \<and> length (buildBuffInstances
        [sampleStudent ''A'' [sampleBuff ''b1'' KBuff 6 ''field'' None,
                              sampleBuff ''b2'' KDebuff 6 ''field'' None],
         sampleStudent ''B'' []]
        [sampleEvent ''e1'' ''A'' 2 3 ModeAll None None,
         sampleEvent ''e2'' ''A'' 4 3 ModeStudent (Some [''B'', ''A'']) None]
        Map.empty Map.empty 60 (1 / 10)) = 8
   \<and> distinct (map instanceTriple (buildBuffInstances
        [sampleStudent ''A'' [sampleBuff ''b1'' KBuff 6 ''field'' None,
                              sampleBuff ''b2'' KDebuff 6 ''field'' None],
         sampleStudent ''B'' []]
        [sampleEvent ''e1'' ''A'' 2 3 ModeAll None None,
         sampleEvent ''e2'' ''A'' 4 3 ModeStudent (Some [''B'', ''A'']) None]
        Map.empty Map.empty 60 (1 / 10)))
   \<and> distinct (map bi_id (buildBuffInstances
        [sampleStudent ''A'' [sampleBuff ''b1'' KBuff 6 ''field'' None,
                              sampleBuff ''b2'' KDebuff 6 ''field'' None],
         sampleStudent ''B'' []]
        [sampleEvent ''e1'' ''A'' 2 3 ModeAll None None,
         sampleEvent ''e2'' ''A'' 4 3 ModeStudent (Some [''B'', ''A'']) None]
        Map.empty Map.empty 60 (1 / 10)))"
proof -
  let ?S = "[sampleStudent ''A'' [sampleBuff ''b1'' KBuff 6 ''field'' None,
                                  sampleBuff ''b2'' KDebuff 6 ''field'' None],
             sampleStudent ''B'' []]"
  let ?E = "[sampleEvent ''e1'' ''A'' 2 3 ModeAll None None,
             sampleEvent ''e2'' ''A'' 4 3 ModeStudent (Some [''B'', ''A'']) None]"
  have 1: "distinct (map st_id ?S)" by (simp add: sampleStudent_def)
  have 2: "distinct (map evt_id ?E)" by (simp add: sampleEvent_def)
  have 3: "\<forall>student \<in> set ?S. \<forall>buffs \<in> set (studentBuffs student).
           distinct (map buff_id buffs) \<and>
           (\<forall>buff \<in> set buffs. idsDistinct (buff_targetStudentIds buff))"
    by (simp add: sampleStudent_def sampleSkill_def sampleBuff_def studentBuffs_def idsDistinct_def)
  have 4: "\<forall>event \<in> set ?E.
           idsDistinct (evt_targetStudentIds event) \<and>
           (\<forall>buff. idsDistinct (case override event buff of
                                   None \<Rightarrow> None | Some ov \<Rightarrow> ts_targetStudentIds ov))"
    by (simp add: sampleEvent_def override_def idsDistinct_def)
  have 5: "\<forall>event \<in> set ?E. CHR '':'' \<notin> set (evt_id event)"
    by (simp add: sampleEvent_def)
  have 6: "\<forall>student \<in> set ?S. \<forall>buffs \<in> set (studentBuffs student).
             \<forall>buff \<in> set buffs. CHR '':'' \<notin> set (buff_id buff)"
    by (simp add: sampleStudent_def sampleSkill_def sampleBuff_def studentBuffs_def)
  have n: "length (buildBuffInstances ?S ?E Map.empty Map.empty 60 (1 / 10)) = 8"
    by code_simp
  show ?thesis
    using 1 2 n 5 6 instances_distinct[OF 1 2 3 4, of Map.empty Map.empty 60 "1 / 10"] by blast
qed

section \<open>Claims on the Stat Aggregator\<close>

text \<open>
  Claim C2. For every target, query time and instance list, \<open>computeStatsAtTime\<close> returns
  (i) as active set exactly the instances of that target with \<open>start \<le> t < end\<close>, so no
  instance is active at its own end; (ii) totals that are the sums, per stat, of the
  contributions of a selection of survivors among the active instances: one survivor for
  each (stat, stack group, kind) group, starting no earlier than any active instance of its
  group, a buff contributing its magnitude, a debuff the negated magnitude and an attack
  nothing; (iii) as computed stats the base stats times one plus the totals, stat by stat.
  Sums and products are those of the real numbers.
\<close>

theorem computeStatsAtTime_correct:
  "active (computeStatsAtTime target t instances)
     = filter (\<lambda>item. bi_studentId item = tg_id target \<and> bi_start item \<le> t \<and> t < bi_end item)
         instances
   \<and> b \<notin> set (active (computeStatsAtTime target (bi_end b) instances))
   \<and> (\<exists>surv.
         set surv \<subseteq> set (active (computeStatsAtTime target t instances))
         \<and> distinct (map stackGroupOf surv)
         \<and> (\<forall>b \<in> set (active (computeStatsAtTime target t instances)).
               \<exists>s \<in> set surv. stackGroupOf s = stackGroupOf b \<and> bi_start b \<le> bi_start s)
         \<and> totals (computeStatsAtTime target t instances)
             = \<lparr> atk = (\<Sum>s\<leftarrow>surv. contribution SAtk s),
                 crit = (\<Sum>s\<leftarrow>surv. contribution SCrit s),
                 critDmg = (\<Sum>s\<leftarrow>surv. contribution SCritDmg s) \<rparr>)
   \<and> computed (computeStatsAtTime target t instances)
       = \<lparr> atk = atk (tg_stats target) * (1 + atk (totals (computeStatsAtTime target t instances))),
           crit = crit (tg_stats target) * (1 + crit (totals (computeStatsAtTime target t instances))),
           critDmg = critDmg (tg_stats target)
                       * (1 + critDmg (totals (computeStatsAtTime target t instances))) \<rparr>"
proof -
  let ?act = "active (computeStatsAtTime target t instances)"
  let ?surv = "map snd (stacked ?act)"
  have 1: "b \<notin> set (active (computeStatsAtTime target (bi_end b) instances))"
    by (simp add: computeStats_active)
  have 2: "set ?surv \<subseteq> set ?act" by (rule stacked_subset)
  have 3: "distinct (map stackGroupOf ?surv)" by (rule stacked_distinct_groups)
  have 4: "\<forall>b \<in> set ?act. \<exists>s \<in> set ?surv. stackGroupOf s = stackGroupOf b \<and> bi_start b \<le> bi_start s"
    using stacked_latest by blast
  have 5: "totals (computeStatsAtTime target t instances)
             = \<lparr> atk = (\<Sum>s\<leftarrow>?surv. contribution SAtk s),
                 crit = (\<Sum>s\<leftarrow>?surv. contribution SCrit s),
                 critDmg = (\<Sum>s\<leftarrow>?surv. contribution SCritDmg s) \<rparr>"
    unfolding computeStats_totals by (rule totals_sum)
  have ex: "\<exists>surv.
         set surv \<subseteq> set ?act
         \<and> distinct (map stackGroupOf surv)
         \<and> (\<forall>b \<in> set ?act. \<exists>s \<in> set surv. stackGroupOf s = stackGroupOf b \<and> bi_start b \<le> bi_start s)
         \<and> totals (computeStatsAtTime target t instances)
             = \<lparr> atk = (\<Sum>s\<leftarrow>surv. contribution SAtk s),
                 crit = (\<Sum>s\<leftarrow>surv. contribution SCrit s),
                 critDmg = (\<Sum>s\<leftarrow>surv. contribution SCritDmg s) \<rparr>"
    using 2 3 4 5 by (intro exI[of _ ?surv] conjI)
  show ?thesis
    using computeStats_active[of target t instances] 1 ex computeStats_computed[of target t instances]
    by (intro conjI)
qed

theorem computeStatsAtTime_correct_witness:
  "sampleInstance ''a'' ''t'' ''field'' 0 10 0.3
     \<in> set (active (computeStatsAtTime sampleTarget 6
                [sampleInstance ''a'' ''t'' ''field'' 0 10 0.3,
                 sampleInstance ''b'' ''t'' ''field'' 5 12 0.2]))
   \<and> (\<exists>s \<in> set (active (computeStatsAtTime sampleTarget 6
                [sampleInstance ''a'' ''t'' ''field'' 0 10 0.3,
                 sampleInstance ''b'' ''t'' ''field'' 5 12 0.2])).
         stackGroupOf s = stackGroupOf (sampleInstance ''a'' ''t'' ''field'' 0 10 0.3)
         \<and> bi_start (sampleInstance ''a'' ''t'' ''field'' 0 10 0.3) \<le> bi_start s)
   \<and> atk (computed (computeStatsAtTime sampleTarget 6
                [sampleInstance ''a'' ''t'' ''field'' 0 10 0.3,
                 sampleInstance ''b'' ''t'' ''field'' 5 12 0.2])) = 1200"
proof -
  let ?xs = "[sampleInstance ''a'' ''t'' ''field'' 0 10 0.3,
              sampleInstance ''b'' ''t'' ''field'' 5 12 0.2]"
  have m: "sampleInstance ''a'' ''t'' ''field'' 0 10 0.3
     \<in> set (active (computeStatsAtTime sampleTarget 6 ?xs))"
    by code_simp
  have c: "atk (computed (computeStatsAtTime sampleTarget 6 ?xs)) = 1200"
    by code_simp
  have "\<exists>s \<in> set (active (computeStatsAtTime sampleTarget 6 ?xs)).
         stackGroupOf s = stackGroupOf (sampleInstance ''a'' ''t'' ''field'' 0 10 0.3)
         \<and> bi_start (sampleInstance ''a'' ''t'' ''field'' 0 10 0.3) \<le> bi_start s"
    using m computeStatsAtTime_correct[of sampleTarget 6 ?xs] by blast
  then show ?thesis using m c by blast
qed

section \<open>Claims on Lane Assignment\<close>

text \<open>
  Claim C6, as stated, has \<open>buildBuffLanes\<close> map every input instance to a lane so that
  instances sharing a lane do not overlap. The lane map is keyed by instance id: of two
  instances with the same id the later one overwrites the entry of the earlier. The two
  instances below are resolved instances of one target (the overwrite engine returns them
  unchanged, they are in different stack groups), they overlap, and both are mapped to the
  same lane.
\<close>

theorem buildBuffLanes_shared_id_counterexample:
  "applyOverwriteRules [sampleInstance ''x'' ''t'' ''field'' 0 10 0.3,
                        sampleInstance ''x'' ''t'' ''ns'' 5 15 0.2]
     = [sampleInstance ''x'' ''t'' ''field'' 0 10 0.3, sampleInstance ''x'' ''t'' ''ns'' 5 15 0.2]
   \<and> laneMap (buildBuffLanes [sampleInstance ''x'' ''t'' ''field'' 0 10 0.3,
                               sampleInstance ''x'' ''t'' ''ns'' 5 15 0.2])
        (bi_id (sampleInstance ''x'' ''t'' ''field'' 0 10 0.3))
       = laneMap (buildBuffLanes [sampleInstance ''x'' ''t'' ''field'' 0 10 0.3,
                                  sampleInstance ''x'' ''t'' ''ns'' 5 15 0.2])
           (bi_id (sampleInstance ''x'' ''t'' ''ns'' 5 15 0.2))
   \<and> sampleInstance ''x'' ''t'' ''field'' 0 10 0.3 \<noteq> sampleInstance ''x'' ''t'' ''ns'' 5 15 0.2
   \<and> bi_start (sampleInstance ''x'' ''t'' ''ns'' 5 15 0.2)
       < bi_end (sampleInstance ''x'' ''t'' ''field'' 0 10 0.3)
   \<and> bi_start (sampleInstance ''x'' ''t'' ''field'' 0 10 0.3)
       < bi_end (sampleInstance ''x'' ''t'' ''ns'' 5 15 0.2)"
  by code_simp

text \<open>
  Claim C6, amended. For instances with pairwise distinct ids and \<open>end > start\<close> (as all
  resolved instances have), \<open>buildBuffLanes\<close> maps every instance to a lane index below
  the lane count, and no two instances sharing a lane overlap. When there is at least one
  instance, the lane count is the number of instances active at some instant, no instant
  has more active instances, and no assignment of lanes without overlaps uses fewer lanes.
  For no instances the lane count is 1.
\<close>

theorem buildBuffLanes_correct:
  assumes "distinct (map bi_id buffs)" and "\<forall>b \<in> set buffs. bi_start b < bi_end b"
  shows
    "(\<forall>b \<in> set buffs. \<exists>l < laneCount (buildBuffLanes buffs).
        laneMap (buildBuffLanes buffs) (bi_id b) = Some l)
     \<and> (\<forall>a \<in> set buffs. \<forall>b \<in> set buffs. a \<noteq> b \<longrightarrow>
          laneMap (buildBuffLanes buffs) (bi_id a) = laneMap (buildBuffLanes buffs) (bi_id b) \<longrightarrow>
          bi_end a \<le> bi_start b \<or> bi_end b \<le> bi_start a)
     \<and> (buffs \<noteq> [] \<longrightarrow>
          (\<exists>t. activeCount t buffs = laneCount (buildBuffLanes buffs))
          \<and> (\<forall>t. activeCount t buffs \<le> laneCount (buildBuffLanes buffs))
          \<and> (\<forall>f :: BuffInstance \<Rightarrow> nat.
                (\<forall>a \<in> set buffs. \<forall>b \<in> set buffs. a \<noteq> b \<longrightarrow> f a = f b \<longrightarrow>
                   bi_end a \<le> bi_start b \<or> bi_end b \<le> bi_start a) \<longrightarrow>
                laneCount (buildBuffLanes buffs) \<le> card (f ` set buffs)))
     \<and> (buffs = [] \<longrightarrow> laneCount (buildBuffLanes buffs) = 1)"
proof -
  note g = buildBuffLanes_general[OF assms]
  have db: "distinct buffs" using assms(1) by (simp add: distinct_map)
  have minimal: "laneCount (buildBuffLanes buffs) \<le> card (f ` set buffs)"
    if ne: "buffs \<noteq> []"
      and sep: "\<forall>a \<in> set buffs. \<forall>b \<in> set buffs. a \<noteq> b \<longrightarrow> f a = f b \<longrightarrow>
                   bi_end a \<le> bi_start b \<or> bi_end b \<le> bi_start a"
    for f :: "BuffInstance \<Rightarrow> nat"
  proof -
    obtain t where t: "activeCount t buffs = laneCount (buildBuffLanes buffs)"
      using g(4)[OF ne] by blast
    have "activeCount t buffs \<le> card (f ` set buffs)"
      using sep by (intro active_le_lanes[OF db]) blast
    then show ?thesis using t by simp
  qed
  show ?thesis
    using g(1) g(2) g(3) g(4) minimal buildBuffLanes_empty by (intro conjI impI allI) auto
qed

theorem buildBuffLanes_correct_witness:
  "distinct (map bi_id [sampleInstance ''a'' ''t'' ''field'' 0 10 0.3,
                        sampleInstance ''b'' ''t'' ''ns'' 5 15 0.2,
                        sampleInstance ''c'' ''t'' ''field'' 10 20 0.3])
   \<and> bi_start (sampleInstance ''a'' ''t'' ''field'' 0 10 0.3)
        < bi_end (sampleInstance ''a'' ''t'' ''field'' 0 10 0.3)
   \<and> bi_start (sampleInstance ''b'' ''t'' ''ns'' 5 15 0.2)
        < bi_end (sampleInstance ''b'' ''t'' ''ns'' 5 15 0.2)
   \<and> bi_start (sampleInstance ''c'' ''t'' ''field'' 10 20 0.3)
        < bi_end (sampleInstance ''c'' ''t'' ''field'' 10 20 0.3)
   \<and> laneCount (buildBuffLanes [sampleInstance ''a'' ''t'' ''field'' 0 10 0.3,
                                 sampleInstance ''b'' ''t'' ''ns'' 5 15 0.2,
                                 sampleInstance ''c'' ''t'' ''field'' 10 20 0.3]) = 2
   \<and> (\<exists>t. activeCount t [sampleInstance ''a'' ''t'' ''field'' 0 10 0.3,
                           sampleInstance ''b'' ''t'' ''ns'' 5 15 0.2,
                           sampleInstance ''c'' ''t'' ''field'' 10 20 0.3] = 2)"
proof -
  let ?xs = "[sampleInstance ''a'' ''t'' ''field'' 0 10 0.3,
              sampleInstance ''b'' ''t'' ''ns'' 5 15 0.2,
              sampleInstance ''c'' ''t'' ''field'' 10 20 0.3]"
  have d: "distinct (map bi_id ?xs)" by (simp add: sampleInstance_def)
  have p: "\<forall>b \<in> set ?xs. bi_start b < bi_end b" by (simp add: sampleInstance_def)
  have c: "laneCount (buildBuffLanes ?xs) = 2" by code_simp
  have "\<exists>t. activeCount t ?xs = laneCount (buildBuffLanes ?xs)"
    using buildBuffLanes_correct[OF d p] by blast
  moreover have "bi_start (sampleInstance ''a'' ''t'' ''field'' 0 10 0.3)
        < bi_end (sampleInstance ''a'' ''t'' ''field'' 0 10 0.3)
   \<and> bi_start (sampleInstance ''b'' ''t'' ''ns'' 5 15 0.2)
        < bi_end (sampleInstance ''b'' ''t'' ''ns'' 5 15 0.2)
   \<and> bi_start (sampleInstance ''c'' ''t'' ''field'' 10 20 0.3)
        < bi_end (sampleInstance ''c'' ''t'' ''field'' 10 20 0.3)"
    by (simp add: sampleInstance_def)
  ultimately show ?thesis using d c by simp
qed

section \<open>Claims on the share token\<close>




end
